theory Spec2Isabelle
  imports Complex_Main "HOL-Library.Multiset"
begin

section \<open>Data model\<close>

text \<open>
  A comment as \<^verbatim>\<open>loadComments\<close> builds it: \<^verbatim>\<open>{id, text, createdAt, likesCount}\<close>.
  A field that is \<^verbatim>\<open>undefined\<close> (or, for the text, not a string) is \<open>None\<close>.
  A text is the list of its UTF-16 code units.
  \<open>c_createdAt\<close> is the value of \<^verbatim>\<open>new Date(createdAt)\<close> in milliseconds.
\<close>

record comment =
  c_id :: "string option"
  c_text :: "nat list option"
  c_createdAt :: int
  c_likesCount :: nat

text \<open>An entry of \<^verbatim>\<open>activeDanmaku\<close>: \<^verbatim>\<open>{id, text, commentId, likesCount}\<close>.\<close>

record danmaku =
  d_id :: real
  d_text :: "nat list"
  d_commentId :: "string option"
  d_likesCount :: nat

subsection \<open>Strings\<close>

text \<open>
  \<^verbatim>\<open>String.prototype.trim\<close> strips the code units that ECMAScript lists as WhiteSpace
  or LineTerminator: TAB, LF, VT, FF, CR, SPACE, U+00A0, U+1680, U+2000 to U+200A, U+2028,
  U+2029, U+202F, U+205F, U+3000 and U+FEFF.
\<close>

definition isSpace :: "nat \<Rightarrow> bool" where
  "isSpace u =
     (u \<in> set [0x09, 0x0A, 0x0B, 0x0C, 0x0D, 0x20, 0xA0, 0x1680, 0x2028, 0x2029, 0x202F, 0x205F,
                0x3000, 0xFEFF]
      \<or> (0x2000 \<le> u \<and> u \<le> 0x200A))"

definition trim :: "nat list \<Rightarrow> nat list" where
  "trim s = rev (dropWhile isSpace (rev (dropWhile isSpace s)))"

text \<open>
  The test of the two filters,
  \<^verbatim>\<open>comment.text && typeof comment.text === 'string' && comment.text.trim() !== ''\<close>,
  whose negation guards \<^verbatim>\<open>addDanmaku\<close>.
\<close>

definition hasText :: "nat list option \<Rightarrow> bool" where
  "hasText t = (case t of None \<Rightarrow> False | Some s \<Rightarrow> s \<noteq> [] \<and> trim s \<noteq> [])"

text \<open>\<^verbatim>\<open>x || null\<close> on an optional string: the empty string is falsy.\<close>

definition orNull :: "string option \<Rightarrow> string option" where
  "orNull x = (case x of None \<Rightarrow> None | Some s \<Rightarrow> if s = [] then None else Some s)"

subsection \<open>Numbers\<close>

text \<open>
  A JavaScript number is an IEEE 754 binary64 value, and every arithmetic operation
  returns the exact result rounded to the nearest such value, ties to the even
  significand. \<open>roundEven\<close> rounds a real to the nearest integer, ties to even;
  \<open>ulp x\<close> is the spacing of the binary64 values in the binade of \<open>x\<close> (53 significant
  bits); \<open>roundDouble\<close> is the rounding of a real in the normal range of the format, which
  holds every number that \<^verbatim>\<open>getScale\<close> meets.
\<close>

definition roundEven :: "real \<Rightarrow> int" where
  "roundEven r =
     (if r - of_int \<lfloor>r\<rfloor> < 1 / 2 then \<lfloor>r\<rfloor>
      else if 1 / 2 < r - of_int \<lfloor>r\<rfloor> then \<lfloor>r\<rfloor> + 1
      else if even \<lfloor>r\<rfloor> then \<lfloor>r\<rfloor> else \<lfloor>r\<rfloor> + 1)"

definition ulp :: "real \<Rightarrow> real" where
  "ulp x = 2 powr real_of_int (\<lfloor>log 2 x\<rfloor> - 52)"

definition roundDouble :: "real \<Rightarrow> real" where
  "roundDouble x =
     (if x = 0 then 0
      else if 0 < x then of_int (roundEven (x / ulp x)) * ulp x
      else - (of_int (roundEven (- x / ulp (- x))) * ulp (- x)))"

subsection \<open>The jittered sort\<close>

text \<open>
  The comparator of both sorts: the difference of the creation times plus
  \<^verbatim>\<open>(Math.random() - 0.5) * 2000\<close>. The random number drawn for a comparison
  is given by \<open>rnd\<close>, a function of the two comments compared.
\<close>

definition compareFn :: "(comment \<Rightarrow> comment \<Rightarrow> real) \<Rightarrow> comment \<Rightarrow> comment \<Rightarrow> real" where
  "compareFn rnd a b =
     (let timeSort = real_of_int (c_createdAt a - c_createdAt b);
          randomFactor = (rnd a b - 0.5) * 2000
      in timeSort + randomFactor)"

text \<open>
  \<^verbatim>\<open>Array.prototype.sort\<close> is the engine's. The page runs in a browser on V8, whose
  sort is TimSort; on an array of fewer than 64 elements that is one pass of
  \<^verbatim>\<open>CountAndMakeRun\<close> followed by \<^verbatim>\<open>BinaryInsertionSort\<close>, with no merge.
  A longer array is cut into several runs that are merged, which \<open>sortJS\<close> does not
  follow: what is proved of the order of a sorted list is stated for fewer than 64
  comments, and that the result is a permutation of the array holds of either.

  \<^verbatim>\<open>CountAndMakeRun\<close> compares the second element with the first,
  \<^verbatim>\<open>order = Compare(a[1], a[0])\<close>, takes the run as descending when \<^verbatim>\<open>order < 0\<close>,
  extends it while \<^verbatim>\<open>Compare(current, previous)\<close> keeps that direction
  (\<^verbatim>\<open>order >= 0\<close> ends a descending run, \<^verbatim>\<open>order < 0\<close> an ascending one) and
  reverses a descending run. \<open>runAscending\<close> and \<open>runDescending\<close> count the elements
  that extend the run; \<open>countAndMakeRun\<close> returns the run and the rest of the array.
\<close>

fun runAscending :: "('a \<Rightarrow> 'a \<Rightarrow> real) \<Rightarrow> 'a \<Rightarrow> 'a list \<Rightarrow> nat" where
  "runAscending cmp previousElement [] = 0"
| "runAscending cmp previousElement (currentElement # rest) =
     (if cmp currentElement previousElement < 0 then 0
      else Suc (runAscending cmp currentElement rest))"

fun runDescending :: "('a \<Rightarrow> 'a \<Rightarrow> real) \<Rightarrow> 'a \<Rightarrow> 'a list \<Rightarrow> nat" where
  "runDescending cmp previousElement [] = 0"
| "runDescending cmp previousElement (currentElement # rest) =
     (if 0 \<le> cmp currentElement previousElement then 0
      else Suc (runDescending cmp currentElement rest))"

definition countAndMakeRun :: "('a \<Rightarrow> 'a \<Rightarrow> real) \<Rightarrow> 'a list \<Rightarrow> 'a list \<times> 'a list" where
  "countAndMakeRun cmp xs =
     (case xs of
        elementHigh # elementLow # rest \<Rightarrow>
          if cmp elementLow elementHigh < 0
          then (rev (take (2 + runDescending cmp elementLow rest) xs),
                drop (2 + runDescending cmp elementLow rest) xs)
          else (take (2 + runAscending cmp elementLow rest) xs,
                drop (2 + runAscending cmp elementLow rest) xs)
      | _ \<Rightarrow> (xs, []))"

text \<open>
  \<^verbatim>\<open>BinaryInsertionSort\<close> inserts each remaining element, the pivot, into the sorted
  front: a binary search with \<^verbatim>\<open>order = Compare(pivot, a[mid])\<close>, where
  \<^verbatim>\<open>order < 0\<close> gives \<^verbatim>\<open>right = mid\<close> and anything else \<^verbatim>\<open>left = mid + 1\<close>,
  \<^verbatim>\<open>mid = left + ((right - left) >> 1)\<close>.
\<close>

function findInsertionPoint :: "('a \<Rightarrow> 'a \<Rightarrow> real) \<Rightarrow> 'a \<Rightarrow> 'a list \<Rightarrow> nat \<Rightarrow> nat \<Rightarrow> nat" where
  "findInsertionPoint cmp pivot xs left right =
     (if left < right
      then if cmp pivot (xs ! (left + (right - left) div 2)) < 0
           then findInsertionPoint cmp pivot xs left (left + (right - left) div 2)
           else findInsertionPoint cmp pivot xs (left + (right - left) div 2 + 1) right
      else left)"
  by pat_completeness auto
termination
  by (relation "measure (\<lambda>(cmp, pivot, xs, left, right). right - left)") auto

declare findInsertionPoint.simps [simp del]

fun binaryInsertionSort :: "('a \<Rightarrow> 'a \<Rightarrow> real) \<Rightarrow> 'a list \<Rightarrow> 'a list \<Rightarrow> 'a list" where
  "binaryInsertionSort cmp front [] = front"
| "binaryInsertionSort cmp front (pivot # rest) =
     binaryInsertionSort cmp
       (take (findInsertionPoint cmp pivot front 0 (length front)) front
          @ pivot # drop (findInsertionPoint cmp pivot front 0 (length front)) front)
       rest"

definition sortJS :: "('a \<Rightarrow> 'a \<Rightarrow> real) \<Rightarrow> 'a list \<Rightarrow> 'a list" where
  "sortJS cmp xs =
     binaryInsertionSort cmp (fst (countAndMakeRun cmp xs)) (snd (countAndMakeRun cmp xs))"
section \<open>DanmakuManager\<close>

text \<open>
  The values a render binds and the functions defined in that render close over:
  \<^verbatim>\<open>comments\<close>, \<^verbatim>\<open>activeDanmaku\<close>, \<^verbatim>\<open>playedCommentIds\<close>, \<^verbatim>\<open>restartTimer\<close>.
\<close>

record snapshot =
  s_comments :: "comment list"
  s_activeDanmaku :: "danmaku list"
  s_playedCommentIds :: "string option set"
  s_restartTimer :: "nat option"

text \<open>
  The callbacks handed to \<^verbatim>\<open>setTimeout\<close>, each with the render it closes over:
  \<^item> \<open>StartBatch\<close>: \<^verbatim>\<open>playNextBatch(cs); isProcessingRef.current = false\<close>
    (auto-play effect and restart effect);
  \<^item> \<open>NextBatch\<close>: \<^verbatim>\<open>playNextBatch(remaining)\<close>;
  \<^item> \<open>ClearPlayed\<close>: \<^verbatim>\<open>setPlayedCommentIds(new Set()); isProcessingRef.current = false\<close>.
\<close>

datatype callback =
    StartBatch snapshot "comment list"
  | NextBatch snapshot "comment list"
  | ClearPlayed

text \<open>
  The component's state, its two refs, the browser's pending timers (handle, delay in
  milliseconds, callback) and the cleanup function that the last run of the auto-play
  effect returned (its \<^verbatim>\<open>timer\<close> and the \<^verbatim>\<open>restartTimer\<close> it closes over).
\<close>

record manager =
  comments :: "comment list"
  activeDanmaku :: "danmaku list"
  playedCommentIds :: "string option set"
  autoPlayTimer :: "nat option"
  restartTimer :: "nat option"
  isProcessing :: bool
  isRestarting :: bool
  timers :: "(nat \<times> real \<times> callback) list"
  nextHandle :: nat
  cleanup :: "(nat \<times> nat option) option"

definition render :: "manager \<Rightarrow> snapshot" where
  "render st = \<lparr>s_comments = comments st, s_activeDanmaku = activeDanmaku st,
                s_playedCommentIds = playedCommentIds st, s_restartTimer = restartTimer st\<rparr>"

text \<open>
  What one call of \<^verbatim>\<open>playNextBatch\<close> reads from outside: the viewport class
  (\<^verbatim>\<open>window.innerWidth < 768\<close>), the two results of \<^verbatim>\<open>Math.random()\<close>, and the
  display id \<^verbatim>\<open>Date.now() + Math.random()\<close> of the i-th unit it adds.
\<close>

record draw =
  isMobile :: bool
  rndMax :: real
  rndDelay :: real
  newId :: "nat \<Rightarrow> real"

definition setTimeout :: "callback \<Rightarrow> real \<Rightarrow> manager \<Rightarrow> nat \<times> manager" where
  "setTimeout cb delay st =
     (nextHandle st,
      st\<lparr>timers := timers st @ [(nextHandle st, delay, cb)], nextHandle := Suc (nextHandle st)\<rparr>)"

definition clearTimeout :: "nat \<Rightarrow> manager \<Rightarrow> manager" where
  "clearTimeout h st = st\<lparr>timers := filter (\<lambda>t. fst t \<noteq> h) (timers st)\<rparr>"

definition addDanmaku :: "real \<Rightarrow> nat list option \<Rightarrow> comment option \<Rightarrow> manager \<Rightarrow> manager" where
  "addDanmaku i txt commentData st =
     (if \<not> hasText txt then st
      else
        let newDanmaku =
              \<lparr>d_id = i,
               d_text = trim (the txt),
               d_commentId = (case commentData of None \<Rightarrow> None | Some c \<Rightarrow> orNull (c_id c)),
               d_likesCount = (case commentData of None \<Rightarrow> 0 | Some c \<Rightarrow> c_likesCount c)\<rparr>
        in st\<lparr>activeDanmaku := activeDanmaku st @ [newDanmaku]\<rparr>)"

text \<open>
  The \<^verbatim>\<open>for\<close> loop of \<^verbatim>\<open>playNextBatch\<close> over \<^verbatim>\<open>commentsToPlay[0 .. toPlayNow-1]\<close>,
  \<open>i\<close> the loop index.
\<close>

fun playLoop :: "draw \<Rightarrow> nat \<Rightarrow> comment list \<Rightarrow> manager \<Rightarrow> manager" where
  "playLoop d i [] st = st"
| "playLoop d i (c # cs) st =
     playLoop d (Suc i) cs
       ((addDanmaku (newId d i) (c_text c) (Some c) st)
          \<lparr>playedCommentIds := insert (c_id c) (playedCommentIds (addDanmaku (newId d i) (c_text c) (Some c) st))\<rparr>)"

definition maxConcurrent :: "draw \<Rightarrow> int" where
  "maxConcurrent d = (if isMobile d then 8 + \<lfloor>rndMax d * 5\<rfloor> else 20 + \<lfloor>rndMax d * 16\<rfloor>)"

definition perTickCap :: "draw \<Rightarrow> int" where
  "perTickCap d = (if isMobile d then 2 else 3)"

definition randomDelay :: "draw \<Rightarrow> real" where
  "randomDelay d = (if isMobile d then 2500 + rndDelay d * 3000 else 1500 + rndDelay d * 2000)"

text \<open>
  \<^verbatim>\<open>toPlayNow\<close>: \<^verbatim>\<open>activeDanmaku.length\<close> is read from the render that
  \<^verbatim>\<open>playNextBatch\<close> closes over.
\<close>

definition toPlayNow :: "snapshot \<Rightarrow> draw \<Rightarrow> comment list \<Rightarrow> nat" where
  "toPlayNow cl d commentsToPlay =
     (let currentActive = int (length (s_activeDanmaku cl));
          canAdd = max 0 (maxConcurrent d - currentActive)
      in nat (min canAdd (min (int (length commentsToPlay)) (perTickCap d))))"

definition playNextBatch :: "snapshot \<Rightarrow> draw \<Rightarrow> comment list \<Rightarrow> manager \<Rightarrow> manager" where
  "playNextBatch cl d commentsToPlay st =
     (if length commentsToPlay = 0 then st
      else
        let n = toPlayNow cl d commentsToPlay;
            st1 = playLoop d 0 (take n commentsToPlay) st;
            remaining = drop n commentsToPlay
        in if length remaining > 0
           then snd (setTimeout (NextBatch cl remaining) (randomDelay d) st1)
           else st1)"

text \<open>The body of a timer callback, and the browser firing the timer with handle \<open>h\<close>.\<close>

definition runCallback :: "draw \<Rightarrow> callback \<Rightarrow> manager \<Rightarrow> manager" where
  "runCallback d cb st =
     (case cb of
        StartBatch cl cs \<Rightarrow> (playNextBatch cl d cs st)\<lparr>isProcessing := False\<rparr>
      | NextBatch cl cs \<Rightarrow> playNextBatch cl d cs st
      | ClearPlayed \<Rightarrow> st\<lparr>playedCommentIds := {}, isProcessing := False\<rparr>)"

definition fire :: "nat \<Rightarrow> draw \<Rightarrow> manager \<Rightarrow> manager" where
  "fire h d st =
     (case find (\<lambda>t. fst t = h) (timers st) of
        None \<Rightarrow> st
      | Some t \<Rightarrow> runCallback d (snd (snd t)) (clearTimeout h st))"

text \<open>The filter of the auto-play effect and the one of the restart effect.\<close>

definition newComments :: "(comment \<Rightarrow> comment \<Rightarrow> real) \<Rightarrow> manager \<Rightarrow> comment list" where
  "newComments rnd st =
     sortJS (compareFn rnd)
       (filter (\<lambda>c. c_id c \<notin> playedCommentIds st \<and> hasText (c_text c)) (comments st))"

definition allComments :: "(comment \<Rightarrow> comment \<Rightarrow> real) \<Rightarrow> manager \<Rightarrow> comment list" where
  "allComments rnd st =
     sortJS (compareFn rnd) (filter (\<lambda>c. hasText (c_text c)) (comments st))"

text \<open>The auto-play effect (dependency \<^verbatim>\<open>[comments]\<close>) and its cleanup.\<close>

definition autoPlayEffect :: "(comment \<Rightarrow> comment \<Rightarrow> real) \<Rightarrow> manager \<Rightarrow> manager" where
  "autoPlayEffect rnd st =
     (if isProcessing st \<or> isRestarting st then st
      else if length (comments st) = 0 then st
      else if length (newComments rnd st) = 0 then st
      else
        let st1 = st\<lparr>isProcessing := True\<rparr>;
            st2 = (case autoPlayTimer st of None \<Rightarrow> st1 | Some h \<Rightarrow> clearTimeout h st1);
            r = setTimeout (StartBatch (render st) (newComments rnd st)) 1000 st2
        in (snd r)\<lparr>autoPlayTimer := Some (fst r), cleanup := Some (fst r, restartTimer st)\<rparr>)"

definition runCleanup :: "manager \<Rightarrow> manager" where
  "runCleanup st =
     (case cleanup st of
        None \<Rightarrow> st
      | Some cf \<Rightarrow>
          let st1 = (clearTimeout (fst cf) st)\<lparr>isProcessing := False\<rparr>;
              st2 = (case snd cf of
                       None \<Rightarrow> st1
                     | Some r \<Rightarrow> (clearTimeout r st1)\<lparr>isRestarting := False\<rparr>)
          in st2\<lparr>cleanup := None\<rparr>)"

text \<open>
  The restart effect (dependencies \<^verbatim>\<open>[playedCommentIds.size, comments.length]\<close>):
  \<open>restartEffect\<close> is its body, \<open>afterRender\<close> runs it when a dependency differs
  from the previous render's.
\<close>

definition restartEffect :: "(comment \<Rightarrow> comment \<Rightarrow> real) \<Rightarrow> manager \<Rightarrow> manager" where
  "restartEffect rnd st =
     (if card (playedCommentIds st) = 0 \<and> length (comments st) > 0
         \<and> \<not> isProcessing st \<and> isRestarting st
      then
        let st1 = st\<lparr>isRestarting := False\<rparr>
        in if length (allComments rnd st) > 0
           then snd (setTimeout (StartBatch (render st) (allComments rnd st)) 1000
                       (st1\<lparr>isProcessing := True\<rparr>))
           else st1
      else st)"

definition afterRender :: "(comment \<Rightarrow> comment \<Rightarrow> real) \<Rightarrow> manager \<Rightarrow> manager \<Rightarrow> manager" where
  "afterRender rnd prev st =
     (if card (playedCommentIds st) = card (playedCommentIds prev)
         \<and> length (comments st) = length (comments prev)
      then st else restartEffect rnd st)"

text \<open>
  \<^verbatim>\<open>setComments(commentsData)\<close> of \<^verbatim>\<open>loadComments\<close> and the render it causes: the
  cleanup of the previous auto-play effect, the auto-play effect, the restart effect.
\<close>

definition setComments :: "(comment \<Rightarrow> comment \<Rightarrow> real) \<Rightarrow> comment list \<Rightarrow> manager \<Rightarrow> manager" where
  "setComments rnd cs st =
     afterRender rnd st (autoPlayEffect rnd (runCleanup (st\<lparr>comments := cs\<rparr>)))"

text \<open>
  \<^verbatim>\<open>removeDanmaku\<close>, with the render \<open>cl\<close> it closes over: \<^verbatim>\<open>comments\<close>,
  \<^verbatim>\<open>playedCommentIds\<close> and \<^verbatim>\<open>restartTimer\<close> are that render's, the ref
  \<^verbatim>\<open>isRestartingRef\<close> and the previous \<^verbatim>\<open>activeDanmaku\<close> are current.
\<close>

definition removeDanmaku :: "snapshot \<Rightarrow> real \<Rightarrow> manager \<Rightarrow> manager" where
  "removeDanmaku cl i st =
     (let updated = filter (\<lambda>item. d_id item \<noteq> i) (activeDanmaku st);
          st1 =
            (if length updated = 0 \<and> length (s_comments cl) > 0
                \<and> card (s_playedCommentIds cl) \<ge> length (s_comments cl) \<and> \<not> isRestarting st
             then
               let st2 = st\<lparr>isRestarting := True\<rparr>;
                   st3 = (case s_restartTimer cl of None \<Rightarrow> st2 | Some h \<Rightarrow> clearTimeout h st2);
                   r = setTimeout ClearPlayed 3000 st3
               in (snd r)\<lparr>restartTimer := Some (fst r)\<rparr>
             else st)
      in st1\<lparr>activeDanmaku := updated\<rparr>)"

text \<open>
  The restart timer firing, followed by the render its \<^verbatim>\<open>setPlayedCommentIds\<close> causes.
\<close>

definition fireRestart :: "(comment \<Rightarrow> comment \<Rightarrow> real) \<Rightarrow> nat \<Rightarrow> draw \<Rightarrow> manager \<Rightarrow> manager" where
  "fireRestart rnd h d st = afterRender rnd st (fire h d st)"

text \<open>\<^verbatim>\<open>window.addDanmaku(text)\<close>: the manual injection, with no comment data.\<close>

definition windowAddDanmaku :: "real \<Rightarrow> nat list option \<Rightarrow> manager \<Rightarrow> manager" where
  "windowAddDanmaku i txt st = addDanmaku i txt None st"

text \<open>
  Unmounting the manager runs the cleanup of the auto-play effect (the restart effect
  and the timers of \<^verbatim>\<open>playNextBatch\<close> have none) and unmounts every unit.
\<close>

definition unmount :: "manager \<Rightarrow> manager" where
  "unmount st = (runCleanup st)\<lparr>activeDanmaku := []\<rparr>"

text \<open>
  Running a release to its end: the pending batch timers are fired, first registered
  first, one draw each, until none is pending. \<open>None\<close>: the draws ran out first.
  The render that follows a batch runs no effect body: the auto-play effect depends on
  \<^verbatim>\<open>comments\<close> only, and the restart effect, whose dependency changes when the batch
  has marked a comment, requires \<^verbatim>\<open>playedCommentIds.size === 0\<close>.
\<close>

definition isBatch :: "nat \<times> real \<times> callback \<Rightarrow> bool" where
  "isBatch t = (case snd (snd t) of ClearPlayed \<Rightarrow> False | _ \<Rightarrow> True)"

fun drain :: "draw list \<Rightarrow> manager \<Rightarrow> manager option" where
  "drain [] st = (case find isBatch (timers st) of None \<Rightarrow> Some st | Some t \<Rightarrow> None)"
| "drain (d # ds) st =
     (case find isBatch (timers st) of
        None \<Rightarrow> Some st
      | Some t \<Rightarrow> drain ds (fire (fst t) d st))"

text \<open>The same run, stopped when the draws are used up: the state reached by then.\<close>

fun runBatches :: "draw list \<Rightarrow> manager \<Rightarrow> manager" where
  "runBatches [] st = st"
| "runBatches (d # ds) st =
     (case find isBatch (timers st) of
        None \<Rightarrow> st
      | Some t \<Rightarrow> runBatches ds (fire (fst t) d st))"

definition initial :: manager where
  "initial = \<lparr>comments = [], activeDanmaku = [], playedCommentIds = {}, autoPlayTimer = None,
              restartTimer = None, isProcessing = False, isRestarting = False, timers = [],
              nextHandle = 1, cleanup = None\<rparr>"

section \<open>DanmakuComment\<close>

text \<open>
  \<^verbatim>\<open>getScale\<close>: \<^verbatim>\<open>baseScale + (likes * scalePerLike)\<close> on numbers. The literals
  \<^verbatim>\<open>0.8\<close> and \<^verbatim>\<open>0.02\<close> denote the binary64 values nearest to them, and the product
  and the sum are rounded.
\<close>

definition getScale :: "real \<Rightarrow> real" where
  "getScale likes =
     (let baseScale = roundDouble 0.8;
          scalePerLike = roundDouble 0.02
      in roundDouble (baseScale + roundDouble (likes * scalePerLike)))"

text \<open>
  A like count is a natural number held in a number: one that binary64 represents
  exactly, below the overflow threshold.
\<close>

definition likeCount :: "nat \<Rightarrow> bool" where
  "likeCount n = (roundDouble (real n) = real n \<and> real n < 2 ^ 1024)"

text \<open>
  One mounted \<^verbatim>\<open>DanmakuComment\<close>: the prop \<^verbatim>\<open>commentId\<close>, its state
  (\<^verbatim>\<open>isHovered\<close>, \<^verbatim>\<open>isLiked\<close>, \<^verbatim>\<open>currentLikes\<close>), the ref \<^verbatim>\<open>animationRef\<close>
  (\<open>None\<close> is \<^verbatim>\<open>null\<close>, otherwise the play state of the animation it holds), and what
  the component acts on: the list stored under \<^verbatim>\<open>liked_danmaku\<close> in
  \<^verbatim>\<open>localStorage\<close>, the calls of the props \<^verbatim>\<open>onLike\<close> and \<^verbatim>\<open>onComplete\<close>, whether the
  manager still holds the unit in \<^verbatim>\<open>activeDanmaku\<close>, and whether it is mounted.
\<close>

datatype playState = Running | Paused

record danmakuComment =
  p_commentId :: "string option"
  isHovered :: bool
  isLiked :: bool
  currentLikes :: nat
  animationRef :: "playState option"
  likedDanmaku :: "string list"
  onLikeCalls :: "string list"
  onCompleteCalls :: nat
  inActivePool :: bool
  mounted :: bool

text \<open>The effect \<^verbatim>\<open>[commentId]\<close> that reads \<^verbatim>\<open>localStorage\<close>, and the animation effect.\<close>

definition likedEffect :: "danmakuComment \<Rightarrow> danmakuComment" where
  "likedEffect u =
     (case orNull (p_commentId u) of
        None \<Rightarrow> u
      | Some c \<Rightarrow> u\<lparr>isLiked := (c \<in> set (likedDanmaku u))\<rparr>)"

definition animationEffect :: "danmakuComment \<Rightarrow> danmakuComment" where
  "animationEffect u =
     (case animationRef u of Some a \<Rightarrow> u | None \<Rightarrow> u\<lparr>animationRef := Some Running\<rparr>)"

definition mountComment :: "string option \<Rightarrow> nat \<Rightarrow> string list \<Rightarrow> danmakuComment" where
  "mountComment commentId likesCount stored =
     animationEffect (likedEffect
       \<lparr>p_commentId = commentId, isHovered = False, isLiked = False, currentLikes = likesCount,
        animationRef = None, likedDanmaku = stored, onLikeCalls = [], onCompleteCalls = 0,
        inActivePool = True, mounted = True\<rparr>)"

definition handleMouseEnter :: "danmakuComment \<Rightarrow> danmakuComment" where
  "handleMouseEnter u =
     (case animationRef u of
        None \<Rightarrow> u\<lparr>isHovered := True\<rparr>
      | Some a \<Rightarrow> u\<lparr>isHovered := True, animationRef := Some Paused\<rparr>)"

definition handleMouseLeave :: "danmakuComment \<Rightarrow> danmakuComment" where
  "handleMouseLeave u =
     (case animationRef u of
        None \<Rightarrow> u\<lparr>isHovered := False\<rparr>
      | Some a \<Rightarrow> u\<lparr>isHovered := False, animationRef := Some Running\<rparr>)"

definition handleLike :: "danmakuComment \<Rightarrow> danmakuComment" where
  "handleLike u =
     (case orNull (p_commentId u) of
        None \<Rightarrow> u
      | Some c \<Rightarrow>
          if isLiked u then u
          else u\<lparr>isLiked := True, currentLikes := currentLikes u + 1,
                 likedDanmaku := likedDanmaku u @ [c], onLikeCalls := onLikeCalls u @ [c]\<rparr>)"

text \<open>
  \<^verbatim>\<open>animation.onfinish\<close>: it calls \<^verbatim>\<open>onComplete\<close>, which is the manager's
  \<^verbatim>\<open>removeDanmaku\<close> of this unit, so the unit leaves \<^verbatim>\<open>activeDanmaku\<close>.
\<close>

definition onfinish :: "danmakuComment \<Rightarrow> danmakuComment" where
  "onfinish u = u\<lparr>onCompleteCalls := Suc (onCompleteCalls u), inActivePool := False\<rparr>"

text \<open>The cleanup of the animation effect: \<^verbatim>\<open>cancel()\<close> and \<^verbatim>\<open>animationRef.current = null\<close>.\<close>

definition cleanupComment :: "danmakuComment \<Rightarrow> danmakuComment" where
  "cleanupComment u = (case animationRef u of None \<Rightarrow> u | Some a \<Rightarrow> u\<lparr>animationRef := None\<rparr>)"

text \<open>
  What can happen to a unit. The browser delivers \<open>AnimationFinish\<close> to a running
  animation only (a paused one makes no progress, a cancelled one fires no
  \<^verbatim>\<open>finish\<close>); \<open>Teardown\<close> is the manager dropping the unit or being unmounted. After
  each event a unit that the manager no longer holds is unmounted, which runs its cleanup;
  an unmounted unit receives nothing.
\<close>

datatype event = MouseEnter | MouseLeave | Click | AnimationFinish | Teardown

definition handleEvent :: "event \<Rightarrow> danmakuComment \<Rightarrow> danmakuComment" where
  "handleEvent e u =
     (case e of
        MouseEnter \<Rightarrow> handleMouseEnter u
      | MouseLeave \<Rightarrow> handleMouseLeave u
      | Click \<Rightarrow> handleLike u
      | AnimationFinish \<Rightarrow> (if animationRef u = Some Running then onfinish u else u)
      | Teardown \<Rightarrow> u\<lparr>inActivePool := False\<rparr>)"

definition stepComment :: "event \<Rightarrow> danmakuComment \<Rightarrow> danmakuComment" where
  "stepComment e u =
     (if \<not> mounted u then u
      else
        let u1 = handleEvent e u
        in if inActivePool u1 then u1 else (cleanupComment u1)\<lparr>mounted := False\<rparr>)"

fun runComment :: "event list \<Rightarrow> danmakuComment \<Rightarrow> danmakuComment" where
  "runComment [] u = u"
| "runComment (e # es) u = runComment es (stepComment e u)"

text \<open>
  Two units of one browser share \<^verbatim>\<open>localStorage\<close> and the store that \<^verbatim>\<open>onLike\<close>
  reaches; each has its own state. \<open>sameBrowser u v\<close> is the unit \<open>v\<close> finding the
  stored like list and the calls of \<^verbatim>\<open>onLike\<close> as the unit \<open>u\<close> left them.
\<close>

definition sameBrowser :: "danmakuComment \<Rightarrow> danmakuComment \<Rightarrow> danmakuComment" where
  "sameBrowser u v = v\<lparr>likedDanmaku := likedDanmaku u, onLikeCalls := onLikeCalls u\<rparr>"

section \<open>Observations and example data\<close>

text \<open>
  What a unit shows, and what releasing a comment puts on the screen: the trimmed text,
  \<^verbatim>\<open>commentData?.id || null\<close> and \<^verbatim>\<open>commentData?.likesCount || 0\<close>.
\<close>

definition shown :: "comment \<Rightarrow> nat list \<times> string option \<times> nat" where
  "shown c = (trim (the (c_text c)), orNull (c_id c), c_likesCount c)"

definition content :: "danmaku \<Rightarrow> nat list \<times> string option \<times> nat" where
  "content dm = (d_text dm, d_commentId dm, d_likesCount dm)"

definition screen :: "manager \<Rightarrow> (nat list \<times> string option \<times> nat) list" where
  "screen st = map content (activeDanmaku st)"

text \<open>The pending timers: handle, delay, and whether the callback releases a batch.\<close>

definition pending :: "manager \<Rightarrow> (nat \<times> real \<times> bool) list" where
  "pending st = map (\<lambda>t. (fst t, fst (snd t), isBatch t)) (timers st)"

text \<open>
  A comparator agrees with the creation times on a set of comments: it is negative on an
  earlier and a later comment, and not negative on a later and an earlier one.
\<close>

definition chronological :: "(comment \<Rightarrow> comment \<Rightarrow> real) \<Rightarrow> comment set \<Rightarrow> bool" where
  "chronological cmp S =
     (\<forall>x\<in>S. \<forall>y\<in>S. (c_createdAt x < c_createdAt y \<longrightarrow> cmp x y < 0)
                  \<and> (c_createdAt y < c_createdAt x \<longrightarrow> 0 \<le> cmp x y))"

text \<open>
  The code units of a literal, a constant source of random numbers, comments, and draws
  for a wide and a narrow viewport: \<open>desktopAt k\<close> and \<open>mobileAt k\<close> draw the lowest
  target (20 and 8) and the shortest delay, and number the units they add from \<open>k\<close>;
  \<open>mobileMax\<close> draws the highest target of a narrow viewport, 12.
\<close>

definition utf16 :: "string \<Rightarrow> nat list" where
  "utf16 s = map of_char s"

definition constRnd :: "real \<Rightarrow> comment \<Rightarrow> comment \<Rightarrow> real" where
  "constRnd r a b = r"

definition mkComment :: "string \<Rightarrow> string \<Rightarrow> int \<Rightarrow> comment" where
  "mkComment i t ms = \<lparr>c_id = Some i, c_text = Some (utf16 t), c_createdAt = ms, c_likesCount = 0\<rparr>"

definition desktopDraw :: draw where
  "desktopDraw = \<lparr>isMobile = False, rndMax = 0, rndDelay = 0, newId = real\<rparr>"

definition desktopAt :: "nat \<Rightarrow> draw" where
  "desktopAt k = \<lparr>isMobile = False, rndMax = 0, rndDelay = 0, newId = (\<lambda>i. real (k + i))\<rparr>"

definition mobileAt :: "nat \<Rightarrow> draw" where
  "mobileAt k = \<lparr>isMobile = True, rndMax = 0, rndDelay = 0, newId = (\<lambda>i. real (k + i))\<rparr>"

definition mobileMax :: draw where
  "mobileMax = \<lparr>isMobile = True, rndMax = 0.99, rndDelay = 0, newId = real\<rparr>"

definition reversed :: "comment list" where
  "reversed = [mkComment ''c'' ''third'' 1800, mkComment ''b'' ''second'' 900, mkComment ''a'' ''first'' 0]"

definition spaced :: "comment list" where
  "spaced = [mkComment ''c'' ''third'' 4000, mkComment ''b'' ''second'' 2000, mkComment ''a'' ''first'' 0]"

definition scenario :: "comment list" where
  "scenario = [\<lparr>c_id = Some ''1'', c_text = Some (utf16 ''hi''), c_createdAt = 0, c_likesCount = 0\<rparr>,
               \<lparr>c_id = Some ''2'', c_text = Some (utf16 ''  ''), c_createdAt = 5000, c_likesCount = 0\<rparr>]"

definition noId :: comment where
  "noId = \<lparr>c_id = None, c_text = Some (utf16 ''hi''), c_createdAt = 0, c_likesCount = 0\<rparr>"

definition fourComments :: "comment list" where
  "fourComments = [mkComment ''1'' ''a'' 0, mkComment ''2'' ''b'' 5000, mkComment ''3'' ''c'' 10000,
                   mkComment ''4'' ''d'' 15000]"

definition tenComments :: "comment list" where
  "tenComments = [mkComment ''1'' ''a'' 0, mkComment ''2'' ''b'' 5000, mkComment ''3'' ''c'' 10000,
                  mkComment ''4'' ''d'' 15000, mkComment ''5'' ''e'' 20000, mkComment ''6'' ''f'' 25000,
                  mkComment ''7'' ''g'' 30000, mkComment ''8'' ''h'' 35000, mkComment ''9'' ''i'' 40000,
                  mkComment ''10'' ''j'' 45000]"

definition lastUnit :: manager where
  "lastUnit = fire 1 desktopDraw (setComments (constRnd 0.5) [mkComment ''1'' ''hi'' 0] initial)"

text \<open>
  Four comments on a wide viewport: the state after the first batch (units 0, 1 and 2 of
  the comments 1, 2 and 3) and after the second (unit 10 of comment 4). A unit calls the
  \<^verbatim>\<open>removeDanmaku\<close> of the render in which it was mounted, the one that follows its
  batch. In \<open>earlyUnitLast\<close> the units 1, 2 and 10 complete and then unit 0, which a
  hover had paused; in \<open>lateUnitLast\<close> the units 0, 1 and 2 complete and then unit 10.
\<close>

definition firstBatch :: manager where
  "firstBatch = fire 1 desktopDraw (setComments (constRnd 0.5) fourComments initial)"

definition secondBatch :: manager where
  "secondBatch = fire 2 (desktopAt 10) firstBatch"

definition earlyUnitLast :: manager where
  "earlyUnitLast =
     removeDanmaku (render firstBatch) 0
       (removeDanmaku (render secondBatch) 10
          (removeDanmaku (render firstBatch) 2
             (removeDanmaku (render firstBatch) 1 secondBatch)))"

definition lateUnitLast :: manager where
  "lateUnitLast =
     removeDanmaku (render secondBatch) 10
       (removeDanmaku (render firstBatch) 2
          (removeDanmaku (render firstBatch) 1
             (removeDanmaku (render firstBatch) 0 secondBatch)))"

text \<open>
  The same four comments supplied again (\<^verbatim>\<open>loadComments\<close> runs on every change of
  \<^verbatim>\<open>userId\<close>) after the first batch, while the timer of the second batch is pending.
\<close>

definition reloaded :: manager where
  "reloaded = setComments (constRnd 0.5) fourComments firstBatch"

text \<open>
  Twelve units injected through \<^verbatim>\<open>window.addDanmaku\<close> (units 100 to 111) are on a
  narrow screen when the four comments arrive; in \<open>starved\<close> the twelve units have then
  completed. Their \<^verbatim>\<open>removeDanmaku\<close> is that of a render with no comments.
\<close>

definition crowded :: manager where
  "crowded =
     fold (\<lambda>k. windowAddDanmaku (real k) (Some (utf16 ''hello'')))
       [100, 101, 102, 103, 104, 105, 106, 107, 108, 109, 110, 111] initial"

definition starved :: manager where
  "starved =
     fold (\<lambda>k. removeDanmaku (render crowded) (real k))
       [100, 101, 102, 103, 104, 105, 106, 107, 108, 109, 110, 111]
       (setComments (constRnd 0.5) fourComments crowded)"

text \<open>
  Ten comments on a narrow viewport, and the draws of the five batches that release them:
  the batches are 2.5 s apart and a unit crosses the screen in 16 s, so no unit has
  completed when the fifth batch runs.
\<close>

definition narrowLoad :: manager where
  "narrowLoad = setComments (constRnd 0.5) tenComments initial"

definition fourDraws :: "draw list" where
  "fourDraws = [mobileAt 0, mobileAt 10, mobileAt 20, mobileAt 30]"

text \<open>
  Two units of the comment \<open>c7\<close>, which has 4 likes and is not in the stored like list,
  are mounted in one browser (the comment is on the screen twice, or the page is open in
  two tabs). The like control of the first is clicked, then that of the second.
\<close>

definition firstLiker :: danmakuComment where
  "firstLiker = stepComment Click (mountComment (Some ''c7'') 4 [])"

definition secondLiker :: danmakuComment where
  "secondLiker = stepComment Click (sameBrowser firstLiker (mountComment (Some ''c7'') 4 []))"

text \<open>The two comments of the scenario of the text filter, after their release.\<close>

definition scenarioPlayed :: manager where
  "scenarioPlayed = fire 1 desktopDraw (setComments (constRnd 0.5) scenario initial)"

section \<open>The render scale\<close>

subsection \<open>Rounding\<close>

lemma roundEven_of_int: "roundEven (of_int k) = k"
  by (simp add: roundEven_def)

lemma roundEven_cases: "roundEven r = \<lfloor>r\<rfloor> \<or> roundEven r = \<lfloor>r\<rfloor> + 1"
  by (simp add: roundEven_def)

lemma roundEven_mono: "r \<le> s \<Longrightarrow> roundEven r \<le> roundEven s"
proof -
  assume rs: "r \<le> s"
  then have fl: "\<lfloor>r\<rfloor> \<le> \<lfloor>s\<rfloor>" by (rule floor_mono)
  show ?thesis
  proof (cases "\<lfloor>r\<rfloor> = \<lfloor>s\<rfloor>")
    case True
    with rs have "r - of_int \<lfloor>r\<rfloor> \<le> s - of_int \<lfloor>s\<rfloor>" by simp
    with True show ?thesis by (auto simp: roundEven_def)
  next
    case False
    with fl have "\<lfloor>r\<rfloor> + 1 \<le> \<lfloor>s\<rfloor>" by simp
    moreover have "roundEven r \<le> \<lfloor>r\<rfloor> + 1" using roundEven_cases [of r] by auto
    moreover have "\<lfloor>s\<rfloor> \<le> roundEven s" using roundEven_cases [of s] by auto
    ultimately show ?thesis by linarith
  qed
qed

lemma roundEven_error: "\<bar>of_int (roundEven r) - r\<bar> \<le> 1 / 2"
proof -
  define f where "f = \<lfloor>r\<rfloor>"
  have "real_of_int f \<le> r" "r < real_of_int f + 1" unfolding f_def by linarith+
  then show ?thesis unfolding roundEven_def f_def [symmetric]
    by (simp add: abs_if)
qed

lemma binade:
  assumes "0 < x"
  shows "2 powr real_of_int \<lfloor>log 2 x\<rfloor> \<le> x" and "x < 2 powr real_of_int (\<lfloor>log 2 x\<rfloor> + 1)"
  using floor_log_eq_powr_iff [of x 2 "\<lfloor>log 2 x\<rfloor>"] assms by simp_all

lemma exponent_eq:
  "0 < x \<Longrightarrow> 2 powr real_of_int e \<le> x \<Longrightarrow> x < 2 powr real_of_int (e + 1) \<Longrightarrow> \<lfloor>log 2 x\<rfloor> = e"
  using floor_log_eq_powr_iff [of x 2 e] by simp

lemma roundDouble_at:
  "0 < x \<Longrightarrow> 2 powr real_of_int e \<le> x \<Longrightarrow> x < 2 powr real_of_int (e + 1) \<Longrightarrow>
   roundDouble x = of_int (roundEven (x / 2 powr real_of_int (e - 52))) * 2 powr real_of_int (e - 52)"
  by (simp add: roundDouble_def ulp_def exponent_eq)

lemma ulp_pos: "0 < ulp x"
  by (simp add: ulp_def)

lemma ulp_eq: "ulp x = 2 powr real_of_int \<lfloor>log 2 x\<rfloor> / 2 ^ 52"
proof -
  have "real_of_int (\<lfloor>log 2 x\<rfloor> - 52) = real_of_int \<lfloor>log 2 x\<rfloor> - 52" by simp
  then show ?thesis unfolding ulp_def by (simp add: powr_diff)
qed

lemma mantissa_bounds:
  assumes "0 < x"
  shows "2 ^ 52 \<le> x / ulp x" and "x / ulp x < 2 ^ 53"
proof -
  let ?p = "2 powr real_of_int \<lfloor>log 2 x\<rfloor>"
  have p: "0 < ?p" by simp
  have e: "x / ulp x = x * 2 ^ 52 / ?p" by (simp add: ulp_eq)
  from binade(1) [OF assms] p have "1 \<le> x / ?p" by (simp add: field_simps)
  then have "2 ^ 52 * 1 \<le> 2 ^ 52 * (x / ?p)" by (intro mult_left_mono) simp_all
  then show "2 ^ 52 \<le> x / ulp x" by (simp add: e field_simps)
  have "?p * 2 = 2 powr real_of_int (\<lfloor>log 2 x\<rfloor> + 1)" by (simp add: powr_add)
  with binade(2) [OF assms] have "x < ?p * 2" by simp
  with p have "x / ?p < 2" by (simp add: field_simps)
  then have "2 ^ 52 * (x / ?p) < 2 ^ 52 * 2" by (intro mult_strict_left_mono) simp_all
  then show "x / ulp x < 2 ^ 53" by (simp add: e field_simps)
qed

lemma roundDouble_error:
  assumes "0 < x"
  shows "\<bar>roundDouble x - x\<bar> \<le> x / 2 ^ 53"
proof -
  let ?m = "x / ulp x"
  have u: "0 < ulp x" by (rule ulp_pos)
  have "roundDouble x - x = (of_int (roundEven ?m) - ?m) * ulp x"
    using assms u by (simp add: roundDouble_def field_simps)
  then have "\<bar>roundDouble x - x\<bar> = \<bar>of_int (roundEven ?m) - ?m\<bar> * ulp x"
    using u by (simp add: abs_mult)
  also have "\<dots> \<le> 1 / 2 * ulp x"
    using roundEven_error [of ?m] u by (intro mult_right_mono) simp_all
  also have "ulp x \<le> x / 2 ^ 52"
    using binade(1) [OF assms] by (simp add: ulp_eq field_simps)
  finally show ?thesis by simp
qed

lemma roundDouble_low:
  assumes "0 < x"
  shows "2 powr real_of_int \<lfloor>log 2 x\<rfloor> \<le> roundDouble x"
    and "roundDouble x \<le> 2 powr real_of_int (\<lfloor>log 2 x\<rfloor> + 1)"
proof -
  let ?m = "x / ulp x"
  have u: "0 < ulp x" by (rule ulp_pos)
  have "roundEven (of_int (2 ^ 52)) \<le> roundEven ?m"
    using mantissa_bounds(1) [OF assms] by (intro roundEven_mono) simp
  then have "2 ^ 52 \<le> roundEven ?m" by (simp only: roundEven_of_int)
  then have "(of_int (2 ^ 52) :: real) \<le> of_int (roundEven ?m)" by (simp only: of_int_le_iff)
  then have "2 ^ 52 \<le> (of_int (roundEven ?m) :: real)" by simp
  then have "2 ^ 52 * ulp x \<le> of_int (roundEven ?m) * ulp x"
    using u by (intro mult_right_mono) simp_all
  then show "2 powr real_of_int \<lfloor>log 2 x\<rfloor> \<le> roundDouble x"
    using assms by (simp add: roundDouble_def ulp_eq)
  have "roundEven ?m \<le> roundEven (of_int (2 ^ 53))"
    using mantissa_bounds(2) [OF assms] by (intro roundEven_mono) simp
  then have "roundEven ?m \<le> 2 ^ 53" by (simp only: roundEven_of_int)
  then have "(of_int (roundEven ?m) :: real) \<le> of_int (2 ^ 53)" by (simp only: of_int_le_iff)
  then have "(of_int (roundEven ?m) :: real) \<le> 2 ^ 53" by simp
  then have "of_int (roundEven ?m) * ulp x \<le> 2 ^ 53 * ulp x"
    using u by (intro mult_right_mono) simp_all
  then show "roundDouble x \<le> 2 powr real_of_int (\<lfloor>log 2 x\<rfloor> + 1)"
    using assms by (simp add: roundDouble_def ulp_eq powr_add)
qed

lemma roundDouble_pos: "0 < x \<Longrightarrow> 0 < roundDouble x"
  using roundDouble_low(1) [of x] by (smt (verit) powr_gt_zero)

lemma roundDouble_mono:
  assumes "0 < x" "x \<le> y"
  shows "roundDouble x \<le> roundDouble y"
proof -
  from assms have y: "0 < y" by simp
  from assms have "log 2 x \<le> log 2 y" by simp
  then have fl: "\<lfloor>log 2 x\<rfloor> \<le> \<lfloor>log 2 y\<rfloor>" by (rule floor_mono)
  show ?thesis
  proof (cases "\<lfloor>log 2 x\<rfloor> = \<lfloor>log 2 y\<rfloor>")
    case True
    then have u: "ulp x = ulp y" by (simp add: ulp_def)
    have "x / ulp y \<le> y / ulp y" using assms(2) ulp_pos [of y] by (simp add: divide_right_mono)
    then have "roundEven (x / ulp y) \<le> roundEven (y / ulp y)" by (rule roundEven_mono)
    then have "(of_int (roundEven (x / ulp y)) :: real) \<le> of_int (roundEven (y / ulp y))" by simp
    then have "of_int (roundEven (x / ulp y)) * ulp y \<le> of_int (roundEven (y / ulp y)) * ulp y"
      using ulp_pos [of y] by (intro mult_right_mono) simp_all
    then show ?thesis using assms(1) y by (simp add: roundDouble_def u)
  next
    case False
    with fl have "\<lfloor>log 2 x\<rfloor> + 1 \<le> \<lfloor>log 2 y\<rfloor>" by simp
    then have "2 powr real_of_int (\<lfloor>log 2 x\<rfloor> + 1) \<le> 2 powr real_of_int \<lfloor>log 2 y\<rfloor>"
      by (intro powr_mono) simp_all
    with roundDouble_low(2) [OF assms(1)] roundDouble_low(1) [OF y] show ?thesis by linarith
  qed
qed

lemma roundDouble_mono0: "0 \<le> x \<Longrightarrow> x \<le> y \<Longrightarrow> roundDouble x \<le> roundDouble y"
proof -
  assume a: "0 \<le> x" "x \<le> y"
  show ?thesis
  proof (cases "x = 0")
    case True
    show ?thesis
    proof (cases "y = 0")
      case True
      with \<open>x = 0\<close> show ?thesis by simp
    next
      case False
      with a True have "0 < y" by simp
      from roundDouble_pos [OF this] True show ?thesis by (simp add: roundDouble_def)
    qed
  next
    case False
    with a have "0 < x" by simp
    from roundDouble_mono [OF this a(2)] show ?thesis .
  qed
qed

lemma baseScale_eq: "roundDouble 0.8 = 7205759403792794 / 2 ^ 53"
  using roundDouble_at [of "0.8" "-1"] by (simp add: roundEven_def powr_neg_numeral)

lemma scalePerLike_eq: "roundDouble 0.02 = 5764607523034235 / 2 ^ 58"
  using roundDouble_at [of "0.02" "-6"] by (simp add: roundEven_def powr_neg_numeral)

subsection \<open>The scale\<close>

lemma product_3: "roundDouble (3 * (5764607523034235 / 2 ^ 58)) = 8646911284551352 / 2 ^ 57"
  using roundDouble_at [of "3 * (5764607523034235 / 2 ^ 58)" "-5"]
  by (simp add: roundEven_def powr_neg_numeral)

lemma getScale_3: "getScale 3 = 7746191359077254 / 2 ^ 53"
  unfolding getScale_def Let_def baseScale_eq scalePerLike_eq product_3
  using roundDouble_at [of "7205759403792794 / 2 ^ 53 + 8646911284551352 / 2 ^ 57" "-1"]
  by (simp add: roundEven_def powr_neg_numeral)

lemma literal_086: "roundDouble 0.86 = 7746191359077253 / 2 ^ 53"
  using roundDouble_at [of "0.86" "-1"] by (simp add: roundEven_def powr_neg_numeral)

lemma getScale_0: "getScale 0 = roundDouble 0.8"
  unfolding getScale_def Let_def baseScale_eq
  using roundDouble_at [of "7205759403792794 / 2 ^ 53" "-1"]
  by (simp add: roundEven_def powr_neg_numeral roundDouble_def [of 0])

lemma product_10: "roundDouble (10 * (5764607523034235 / 2 ^ 58)) = 7205759403792794 / 2 ^ 55"
  using roundDouble_at [of "10 * (5764607523034235 / 2 ^ 58)" "-3"]
  by (simp add: roundEven_def powr_neg_numeral)

lemma getScale_10: "getScale 10 = 1"
  unfolding getScale_def Let_def baseScale_eq scalePerLike_eq product_10
  using roundDouble_at [of "7205759403792794 / 2 ^ 53 + 7205759403792794 / 2 ^ 55" "0"]
  by (simp add: roundEven_def powr_neg_numeral)

lemma product_50: "roundDouble (50 * (5764607523034235 / 2 ^ 58)) = 1"
  using roundDouble_at [of "50 * (5764607523034235 / 2 ^ 58)" "0"]
  by (simp add: roundEven_def powr_neg_numeral)

lemma literal_18: "roundDouble 1.8 = 8106479329266893 / 2 ^ 52"
  using roundDouble_at [of "1.8" "0"] by (simp add: roundEven_def powr_neg_numeral)

lemma getScale_50: "getScale 50 = roundDouble 1.8"
  unfolding getScale_def Let_def baseScale_eq scalePerLike_eq product_50 literal_18
  using roundDouble_at [of "7205759403792794 / 2 ^ 53 + 1" "0"]
  by (simp add: roundEven_def powr_neg_numeral)

lemma likeCount_3: "likeCount 3"
  using roundDouble_at [of 3 1] by (simp add: likeCount_def roundEven_def powr_neg_numeral)

lemma getScale_mono:
  assumes "n \<le> m"
  shows "getScale (real n) \<le> getScale (real m)"
proof -
  have c: "0 \<le> roundDouble 0.02" unfolding scalePerLike_eq by simp
  have b: "0 < roundDouble 0.8" unfolding baseScale_eq by simp
  from assms c have "real n * roundDouble 0.02 \<le> real m * roundDouble 0.02"
    by (intro mult_right_mono) simp_all
  moreover from c have "0 \<le> real n * roundDouble 0.02" by simp
  ultimately have p: "roundDouble (real n * roundDouble 0.02) \<le> roundDouble (real m * roundDouble 0.02)"
    by (intro roundDouble_mono0)
  have "roundDouble 0 \<le> roundDouble (real n * roundDouble 0.02)"
    using c by (intro roundDouble_mono0) simp_all
  then have "0 \<le> roundDouble (real n * roundDouble 0.02)" by (simp add: roundDouble_def)
  with b have "0 < roundDouble 0.8 + roundDouble (real n * roundDouble 0.02)" by linarith
  from roundDouble_mono [OF this] p show ?thesis by (simp add: getScale_def Let_def)
qed


lemma error_upper:
  fixes p r s :: real
  assumes "p \<le> r * (5764607523034235 / 2 ^ 58) * (1 + 1 / 2 ^ 53)"
    and "s \<le> (7205759403792794 / 2 ^ 53 + p) * (1 + 1 / 2 ^ 53)" and "1 \<le> r"
  shows "s \<le> (0.8 + 0.02 * r) * (1 + 1 / 2 ^ 51)"
proof -
  have "s \<le> (7205759403792794 / 2 ^ 53 + r * (5764607523034235 / 2 ^ 58) * (1 + 1 / 2 ^ 53)) * (1 + 1 / 2 ^ 53)"
    using assms(1,2) by simp
  also have "\<dots> = 7205759403792794 / 2 ^ 53 * (1 + 1 / 2 ^ 53) + r * (5764607523034235 / 2 ^ 58 * (1 + 1 / 2 ^ 53) * (1 + 1 / 2 ^ 53))"
    by (simp add: algebra_simps)
  also have "\<dots> \<le> 0.8 * (1 + 1 / 2 ^ 51) + r * (0.02 * (1 + 1 / 2 ^ 51))"
    using assms(3) by (intro add_mono mult_left_mono) simp_all
  finally show ?thesis by (simp add: algebra_simps)
qed

lemma error_lower:
  fixes p r s :: real
  assumes "r * (5764607523034235 / 2 ^ 58) * (1 - 1 / 2 ^ 53) \<le> p"
    and "(7205759403792794 / 2 ^ 53 + p) * (1 - 1 / 2 ^ 53) \<le> s" and "1 \<le> r"
  shows "(0.8 + 0.02 * r) * (1 - 1 / 2 ^ 51) \<le> s"
proof -
  have "(0.8 + 0.02 * r) * (1 - 1 / 2 ^ 51) = 0.8 * (1 - 1 / 2 ^ 51) + r * (0.02 * (1 - 1 / 2 ^ 51))"
    by (simp add: algebra_simps)
  also have "\<dots> \<le> 7205759403792794 / 2 ^ 53 * (1 - 1 / 2 ^ 53) + r * (5764607523034235 / 2 ^ 58 * (1 - 1 / 2 ^ 53) * (1 - 1 / 2 ^ 53))"
    using assms(3) by (intro add_mono mult_left_mono) simp_all
  also have "\<dots> = (7205759403792794 / 2 ^ 53 + r * (5764607523034235 / 2 ^ 58) * (1 - 1 / 2 ^ 53)) * (1 - 1 / 2 ^ 53)"
    by (simp add: algebra_simps)
  also have "\<dots> \<le> s" using assms(1,2) by simp
  finally show ?thesis .
qed


lemma abs_relative:
  fixes d x u :: real
  assumes "\<bar>d - x\<bar> \<le> x * u"
  shows "d \<le> x * (1 + u)" and "x * (1 - u) \<le> d"
  using assms by (simp_all add: abs_le_iff algebra_simps)

lemma roundDouble_bounds:
  assumes "0 < x"
  shows "roundDouble x \<le> x * (1 + 1 / 2 ^ 53)" and "x * (1 - 1 / 2 ^ 53) \<le> roundDouble x"
proof -
  from roundDouble_error [OF assms] have "\<bar>roundDouble x - x\<bar> \<le> x * (1 / 2 ^ 53)" by simp
  from abs_relative [OF this]
  show "roundDouble x \<le> x * (1 + 1 / 2 ^ 53)" and "x * (1 - 1 / 2 ^ 53) \<le> roundDouble x" .
qed

lemma getScale_error:
  "\<bar>getScale (real n) - (0.8 + 0.02 * real n)\<bar> \<le> (0.8 + 0.02 * real n) / 2 ^ 51"
proof (cases "n = 0")
  case True
  have "getScale 0 = 7205759403792794 / 2 ^ 53" unfolding getScale_0 baseScale_eq ..
  with True show ?thesis by simp
next
  case False
  define r where "r = real n"
  define p where "p = roundDouble (r * (5764607523034235 / 2 ^ 58))"
  define s where "s = roundDouble (7205759403792794 / 2 ^ 53 + p)"
  from False have r: "1 \<le> r" by (simp add: r_def)
  then have "0 < r * (5764607523034235 / 2 ^ 58)" by simp
  from roundDouble_bounds [OF this] roundDouble_pos [OF this]
  have p1: "p \<le> r * (5764607523034235 / 2 ^ 58) * (1 + 1 / 2 ^ 53)"
    and p2: "r * (5764607523034235 / 2 ^ 58) * (1 - 1 / 2 ^ 53) \<le> p" and p0: "0 < p"
    unfolding p_def .
  from p0 have "0 < 7205759403792794 / 2 ^ 53 + p" by simp
  from roundDouble_bounds [OF this]
  have s1: "s \<le> (7205759403792794 / 2 ^ 53 + p) * (1 + 1 / 2 ^ 53)"
    and s2: "(7205759403792794 / 2 ^ 53 + p) * (1 - 1 / 2 ^ 53) \<le> s"
    unfolding s_def .
  have g: "getScale (real n) = s"
    unfolding getScale_def Let_def baseScale_eq scalePerLike_eq s_def p_def r_def ..
  have "0 \<le> 0.8 + 0.02 * r" using r by simp
  from error_upper [OF p1 s1 r] error_lower [OF p2 s2 r]
  have "s - (0.8 + 0.02 * r) \<le> (0.8 + 0.02 * r) / 2 ^ 51"
    and "(0.8 + 0.02 * r) - s \<le> (0.8 + 0.02 * r) / 2 ^ 51"
    by (simp_all add: algebra_simps)
  then have "\<bar>s - (0.8 + 0.02 * r)\<bar> \<le> (0.8 + 0.02 * r) / 2 ^ 51"
    by (simp only: abs_le_iff minus_diff_eq)
  then show ?thesis by (simp add: g r_def)
qed

lemma likeCount_big1: "likeCount 9007199254740990"
  using roundDouble_at [of 9007199254740990 52] by (simp add: likeCount_def roundEven_def)

lemma likeCount_big2: "likeCount 9007199254740991"
  using roundDouble_at [of 9007199254740991 52] by (simp add: likeCount_def roundEven_def)

lemma product_big1:
  "roundDouble (9007199254740990 * (5764607523034235 / 2 ^ 58)) = 5764607523034234 * 2 ^ 47 / 2 ^ 52"
  using roundDouble_at [of "9007199254740990 * (5764607523034235 / 2 ^ 58)" 47]
  by (simp add: roundEven_def powr_neg_numeral)

lemma product_big2:
  "roundDouble (9007199254740991 * (5764607523034235 / 2 ^ 58)) = 5764607523034234 * 2 ^ 47 / 2 ^ 52"
  using roundDouble_at [of "9007199254740991 * (5764607523034235 / 2 ^ 58)" 47]
  by (simp add: roundEven_def powr_neg_numeral)

lemma getScale_plateau: "getScale 9007199254740990 = getScale 9007199254740991"
  by (simp only: getScale_def Let_def scalePerLike_eq product_big1 product_big2)

lemma likeCount_7: "likeCount 7"
  using roundDouble_at [of 7 2] by (simp add: likeCount_def roundEven_def powr_neg_numeral)

text \<open>
  Claim C8, as the code computes it. The scale is the binary64 sum of \<^verbatim>\<open>0.8\<close> and the
  binary64 product of the like count and \<^verbatim>\<open>0.02\<close>. It is \<^verbatim>\<open>0.8\<close> at no like, 1 at
  10 likes and \<^verbatim>\<open>1.8\<close> at 50 likes. For every like count it is within a relative
  error of \<^verbatim>\<open>2^-51\<close> of \<open>0.8 + 0.02 \<times> likes\<close>, so it is not clamped, and it never
  decreases when the like count grows.
\<close>

theorem getScale_formula:
  "getScale 0 = roundDouble 0.8 \<and> getScale 10 = 1 \<and> getScale 50 = roundDouble 1.8
   \<and> (likeCount n \<longrightarrow>
        \<bar>getScale (real n) - (0.8 + 0.02 * real n)\<bar> \<le> (0.8 + 0.02 * real n) / 2 ^ 51)
   \<and> (likeCount n \<and> likeCount m \<and> n \<le> m \<longrightarrow> getScale (real n) \<le> getScale (real m))"
  using getScale_0 getScale_10 getScale_50 getScale_error [of n] getScale_mono [of n m]
  by (intro conjI impI) simp_all

theorem getScale_formula_witness:
  "likeCount 3 \<and> likeCount 7 \<and> (3::nat) \<le> 7 \<and> getScale 3 \<le> getScale 7
   \<and> \<bar>getScale 3 - (0.8 + 0.02 * 3)\<bar> \<le> (0.8 + 0.02 * 3) / 2 ^ 51"
  using getScale_formula [of 3 7] likeCount_3 likeCount_7 by simp

text \<open>
  The claim as stated fails: at 3 likes the scale is \<^verbatim>\<open>0.8600000000000001\<close>, the
  binary64 value next above \<^verbatim>\<open>0.86\<close>, and the like counts \<^verbatim>\<open>2^53 - 2\<close> and
  \<^verbatim>\<open>2^53 - 1\<close> have the same scale.
\<close>

theorem getScale_formula_counterexample:
  "getScale 3 = 7746191359077254 / 2 ^ 53 \<and> roundDouble 0.86 = 7746191359077253 / 2 ^ 53
   \<and> getScale 3 \<noteq> 0.86
   \<and> likeCount 9007199254740990 \<and> likeCount 9007199254740991
   \<and> getScale 9007199254740990 = getScale 9007199254740991"
  using getScale_3 literal_086 likeCount_big1 likeCount_big2 getScale_plateau by simp

section \<open>The like control and the completion callback\<close>

lemma runComment_unmounted: "\<not> mounted u \<Longrightarrow> runComment es u = u"
  by (induction es arbitrary: u) (simp_all add: stepComment_def)

lemma runComment_append: "runComment (es @ fs) u = runComment fs (runComment es u)"
  by (induction es arbitrary: u) simp_all

lemma stepComment_likes_mono: "currentLikes u \<le> currentLikes (stepComment e u)"
  by (cases e)
     (auto simp: stepComment_def handleEvent_def handleMouseEnter_def handleMouseLeave_def
        handleLike_def onfinish_def cleanupComment_def Let_def split: option.splits)

lemma runComment_likes_mono: "currentLikes u \<le> currentLikes (runComment es u)"
proof (induction es arbitrary: u)
  case Nil
  show ?case by simp
next
  case (Cons e es)
  have "currentLikes u \<le> currentLikes (stepComment e u)" by (rule stepComment_likes_mono)
  also have "\<dots> \<le> currentLikes (runComment es (stepComment e u))" by (rule Cons.IH)
  finally show ?case by simp
qed

lemma stepComment_liked:
  "isLiked u \<Longrightarrow> isLiked (stepComment e u) \<and> currentLikes (stepComment e u) = currentLikes u
     \<and> likedDanmaku (stepComment e u) = likedDanmaku u \<and> onLikeCalls (stepComment e u) = onLikeCalls u"
  by (cases e)
     (auto simp: stepComment_def handleEvent_def handleMouseEnter_def handleMouseLeave_def
        handleLike_def onfinish_def cleanupComment_def Let_def split: option.splits)

lemma runComment_liked:
  "isLiked u \<Longrightarrow> isLiked (runComment es u) \<and> currentLikes (runComment es u) = currentLikes u
     \<and> likedDanmaku (runComment es u) = likedDanmaku u \<and> onLikeCalls (runComment es u) = onLikeCalls u"
proof (induction es arbitrary: u)
  case Nil
  then show ?case by simp
next
  case (Cons e es)
  from Cons.prems have s: "isLiked (stepComment e u)" "currentLikes (stepComment e u) = currentLikes u"
    "likedDanmaku (stepComment e u) = likedDanmaku u" "onLikeCalls (stepComment e u) = onLikeCalls u"
    using stepComment_liked [of u e] by simp_all
  from Cons.IH [OF s(1)] s show ?case by simp
qed

lemma stepComment_unliked:
  "\<not> isLiked u \<Longrightarrow>
     (\<not> isLiked (stepComment e u) \<and> currentLikes (stepComment e u) = currentLikes u
        \<and> likedDanmaku (stepComment e u) = likedDanmaku u \<and> onLikeCalls (stepComment e u) = onLikeCalls u)
     \<or> (isLiked (stepComment e u) \<and> currentLikes (stepComment e u) = currentLikes u + 1
        \<and> length (onLikeCalls (stepComment e u)) = length (onLikeCalls u) + 1)"
  by (cases e)
     (auto simp: stepComment_def handleEvent_def handleMouseEnter_def handleMouseLeave_def
        handleLike_def onfinish_def cleanupComment_def Let_def split: option.splits)

lemma runComment_bound:
  "currentLikes (runComment es u) \<le> currentLikes u + 1
   \<and> length (onLikeCalls (runComment es u)) \<le> length (onLikeCalls u) + 1"
proof (induction es arbitrary: u)
  case Nil
  show ?case by simp
next
  case (Cons e es)
  show ?case
  proof (cases "isLiked u")
    case True
    then show ?thesis using runComment_liked [of u "e # es"] by simp
  next
    case False
    from stepComment_unliked [OF False, of e] show ?thesis
    proof
      assume a: "\<not> isLiked (stepComment e u) \<and> currentLikes (stepComment e u) = currentLikes u
        \<and> likedDanmaku (stepComment e u) = likedDanmaku u \<and> onLikeCalls (stepComment e u) = onLikeCalls u"
      with Cons.IH [of "stepComment e u"] show ?thesis by simp
    next
      assume a: "isLiked (stepComment e u) \<and> currentLikes (stepComment e u) = currentLikes u + 1
        \<and> length (onLikeCalls (stepComment e u)) = length (onLikeCalls u) + 1"
      with runComment_liked [of "stepComment e u" es] show ?thesis by simp
    qed
  qed
qed

lemma mountComment_fields:
  "currentLikes (mountComment cid n stored) = n"
  "onLikeCalls (mountComment cid n stored) = []"
  "likedDanmaku (mountComment cid n stored) = stored"
  "onCompleteCalls (mountComment cid n stored) = 0"
  "mounted (mountComment cid n stored)"
  "inActivePool (mountComment cid n stored)"
  "animationRef (mountComment cid n stored) = Some Running"
  "p_commentId (mountComment cid n stored) = cid"
  "isLiked (mountComment cid n stored) = (case orNull cid of None \<Rightarrow> False | Some c \<Rightarrow> c \<in> set stored)"
  by (simp_all add: mountComment_def likedEffect_def animationEffect_def split: option.splits)

text \<open>
  One unit, whatever events it receives: its displayed like count never decreases, it
  raises the count by at most one and forwards at most one \<^verbatim>\<open>onLike\<close> call. The
  first click on a unit mounted for a comment that is not in the stored like list raises
  the count by exactly 1, sets \<^verbatim>\<open>isLiked\<close>, appends the comment id to the stored list
  and calls \<^verbatim>\<open>onLike\<close> once; whatever follows changes none of these. A unit mounted
  for a comment already in the stored list forwards nothing.
\<close>

lemma like_once_per_unit:
  "currentLikes u \<le> currentLikes (runComment es u)
   \<and> currentLikes (runComment es (mountComment cid n stored)) \<le> n + 1
   \<and> length (onLikeCalls (runComment es (mountComment cid n stored))) \<le> 1
   \<and> (orNull cid = Some c \<and> c \<notin> set stored \<longrightarrow>
        currentLikes (stepComment Click (mountComment cid n stored)) = n + 1
        \<and> isLiked (stepComment Click (mountComment cid n stored))
        \<and> likedDanmaku (stepComment Click (mountComment cid n stored)) = stored @ [c]
        \<and> onLikeCalls (stepComment Click (mountComment cid n stored)) = [c]
        \<and> currentLikes (runComment (Click # es) (mountComment cid n stored)) = n + 1
        \<and> likedDanmaku (runComment (Click # es) (mountComment cid n stored)) = stored @ [c]
        \<and> onLikeCalls (runComment (Click # es) (mountComment cid n stored)) = [c])
   \<and> (orNull cid = Some c \<and> c \<in> set stored \<longrightarrow>
        currentLikes (runComment es (mountComment cid n stored)) = n
        \<and> likedDanmaku (runComment es (mountComment cid n stored)) = stored
        \<and> onLikeCalls (runComment es (mountComment cid n stored)) = [])
   \<and> (isLiked u \<longrightarrow> handleLike u = u)"
proof -
  let ?m = "mountComment cid n stored"
  have p1: "currentLikes u \<le> currentLikes (runComment es u)" by (rule runComment_likes_mono)
  have p2: "currentLikes (runComment es ?m) \<le> n + 1"
    using runComment_bound [of es ?m] by (simp add: mountComment_fields)
  have p3: "length (onLikeCalls (runComment es ?m)) \<le> 1"
    using runComment_bound [of es ?m] by (simp add: mountComment_fields)
  have p4: "currentLikes (stepComment Click ?m) = n + 1
        \<and> isLiked (stepComment Click ?m)
        \<and> likedDanmaku (stepComment Click ?m) = stored @ [c]
        \<and> onLikeCalls (stepComment Click ?m) = [c]
        \<and> currentLikes (runComment (Click # es) ?m) = n + 1
        \<and> likedDanmaku (runComment (Click # es) ?m) = stored @ [c]
        \<and> onLikeCalls (runComment (Click # es) ?m) = [c]"
    if h: "orNull cid = Some c \<and> c \<notin> set stored"
  proof -
    have s: "currentLikes (stepComment Click ?m) = n + 1" "isLiked (stepComment Click ?m)"
      "likedDanmaku (stepComment Click ?m) = stored @ [c]" "onLikeCalls (stepComment Click ?m) = [c]"
      using h by (simp_all add: stepComment_def handleEvent_def handleLike_def mountComment_fields)
    from runComment_liked [OF s(2), of es] s show ?thesis by simp
  qed
  have p5: "currentLikes (runComment es ?m) = n \<and> likedDanmaku (runComment es ?m) = stored
        \<and> onLikeCalls (runComment es ?m) = []"
    if h: "orNull cid = Some c \<and> c \<in> set stored"
  proof -
    have "isLiked ?m" using h by (simp add: mountComment_fields)
    from runComment_liked [OF this, of es] show ?thesis by (simp add: mountComment_fields)
  qed
  have p6: "handleLike u = u" if "isLiked u"
    using that by (simp add: handleLike_def split: option.splits)
  from p1 p2 p3 p4 p5 p6 show ?thesis by blast
qed

text \<open>
  Claim C7 at a failing input. Two units of one comment are mounted in one browser before
  either is clicked. \<^verbatim>\<open>handleLike\<close> tests the state \<^verbatim>\<open>isLiked\<close>, which each unit
  read from \<^verbatim>\<open>localStorage\<close> when it was mounted, and not the stored list: after the
  click on the first unit the second is still not liked, its click raises its count as
  well, the comment id is stored a second time and \<^verbatim>\<open>onLike\<close> is called a second
  time, so this browser has the store increment the like count of the comment twice.
\<close>

theorem like_counted_twice:
  "likedDanmaku firstLiker = [''c7''] \<and> onLikeCalls firstLiker = [''c7'']
   \<and> currentLikes firstLiker = 5
   \<and> isLiked (sameBrowser firstLiker (mountComment (Some ''c7'') 4 [])) = False
   \<and> currentLikes secondLiker = 5
   \<and> likedDanmaku secondLiker = [''c7'', ''c7'']
   \<and> onLikeCalls secondLiker = [''c7'', ''c7'']"
  by (simp add: firstLiker_def secondLiker_def sameBrowser_def stepComment_def handleEvent_def
      handleLike_def orNull_def mountComment_def likedEffect_def animationEffect_def Let_def)

text \<open>
  Claim C10. A unit injected through \<^verbatim>\<open>window.addDanmaku\<close> has \<^verbatim>\<open>commentId\<close> null,
  and on a unit whose \<^verbatim>\<open>commentId\<close> is null \<^verbatim>\<open>handleLike\<close> changes nothing: the
  like count, \<^verbatim>\<open>isLiked\<close>, the stored like list and the calls of \<^verbatim>\<open>onLike\<close> are
  the same after any number of clicks.
\<close>

theorem like_null_commentId_noop:
  "map d_commentId (drop (length (activeDanmaku st)) (activeDanmaku (windowAddDanmaku i txt st)))
     = (if hasText txt then [None] else [])
   \<and> handleLike (u\<lparr>p_commentId := None\<rparr>) = u\<lparr>p_commentId := None\<rparr>
   \<and> runComment (replicate n Click) (mountComment None k stored) = mountComment None k stored"
proof -
  have a: "map d_commentId (drop (length (activeDanmaku st)) (activeDanmaku (windowAddDanmaku i txt st)))
     = (if hasText txt then [None] else [])"
    by (simp add: windowAddDanmaku_def addDanmaku_def Let_def)
  have b: "handleLike (u\<lparr>p_commentId := None\<rparr>) = u\<lparr>p_commentId := None\<rparr>"
    by (simp add: handleLike_def orNull_def)
  have c: "runComment (replicate n Click) (mountComment None k stored) = mountComment None k stored"
  proof (induction n)
    case 0
    show ?case by simp
  next
    case (Suc n)
    have "stepComment Click (mountComment None k stored) = mountComment None k stored"
      by (simp add: stepComment_def handleEvent_def handleLike_def orNull_def mountComment_fields Let_def)
    with Suc show ?case by simp
  qed
  from a b c show ?thesis by simp
qed

lemma stepComment_inv:
  "mounted u \<and> inActivePool u \<and> onCompleteCalls u = 0 \<or> \<not> mounted u \<and> onCompleteCalls u \<le> 1 \<Longrightarrow>
   mounted (stepComment e u) \<and> inActivePool (stepComment e u) \<and> onCompleteCalls (stepComment e u) = 0
     \<or> \<not> mounted (stepComment e u) \<and> onCompleteCalls (stepComment e u) \<le> 1"
  by (cases e)
     (auto simp: stepComment_def handleEvent_def handleMouseEnter_def handleMouseLeave_def
        handleLike_def onfinish_def cleanupComment_def Let_def split: option.splits)

lemma runComment_inv:
  "mounted u \<and> inActivePool u \<and> onCompleteCalls u = 0 \<or> \<not> mounted u \<and> onCompleteCalls u \<le> 1 \<Longrightarrow>
   onCompleteCalls (runComment es u) \<le> 1"
proof (induction es arbitrary: u)
  case Nil
  then show ?case by auto
next
  case (Cons e es)
  from stepComment_inv [OF Cons.prems, of e] have
    "mounted (stepComment e u) \<and> inActivePool (stepComment e u) \<and> onCompleteCalls (stepComment e u) = 0
     \<or> \<not> mounted (stepComment e u) \<and> onCompleteCalls (stepComment e u) \<le> 1" .
  from Cons.IH [OF this] show ?case by simp
qed

lemma hover_keeps:
  "set hs \<subseteq> {MouseEnter, MouseLeave, Click} \<Longrightarrow> mounted u \<and> inActivePool u \<Longrightarrow>
   mounted (runComment hs u) \<and> inActivePool (runComment hs u)
     \<and> onCompleteCalls (runComment hs u) = onCompleteCalls u"
proof (induction hs arbitrary: u)
  case Nil
  then show ?case by simp
next
  case (Cons e hs)
  from Cons.prems have e: "e = MouseEnter \<or> e = MouseLeave \<or> e = Click" by auto
  with Cons.prems(2) have s: "mounted (stepComment e u) \<and> inActivePool (stepComment e u)"
    and c: "onCompleteCalls (stepComment e u) = onCompleteCalls u"
    by (auto simp: stepComment_def handleEvent_def handleMouseEnter_def handleMouseLeave_def
        handleLike_def Let_def split: option.splits)
  from Cons.prems(1) have "set hs \<subseteq> {MouseEnter, MouseLeave, Click}" by simp
  from Cons.IH [OF this s] c show ?case by simp
qed

text \<open>
  Claim C6. Over any sequence of events a unit calls \<^verbatim>\<open>onComplete\<close> at most once.
  After any hovering and clicking, the animation finishing while it runs makes exactly one
  call, and no later event adds another; a teardown before that cancels the animation
  (\<^verbatim>\<open>animationRef\<close> is null) and \<^verbatim>\<open>onComplete\<close> is never called.
\<close>

theorem onComplete_at_most_once:
  "onCompleteCalls (runComment es (mountComment cid n stored)) \<le> 1
   \<and> (set hs \<subseteq> {MouseEnter, MouseLeave, Click}
        \<and> animationRef (runComment hs (mountComment cid n stored)) = Some Running \<longrightarrow>
        onCompleteCalls (runComment hs (mountComment cid n stored)) = 0
        \<and> onCompleteCalls (runComment (hs @ [AnimationFinish]) (mountComment cid n stored)) = 1
        \<and> onCompleteCalls (runComment (hs @ AnimationFinish # es) (mountComment cid n stored)) = 1)
   \<and> (set hs \<subseteq> {MouseEnter, MouseLeave, Click} \<longrightarrow>
        animationRef (runComment (hs @ [Teardown]) (mountComment cid n stored)) = None
        \<and> onCompleteCalls (runComment (hs @ Teardown # es) (mountComment cid n stored)) = 0)"
proof -
  let ?m = "mountComment cid n stored"
  have m: "mounted ?m \<and> inActivePool ?m" by (simp add: mountComment_fields)
  have p1: "onCompleteCalls (runComment es ?m) \<le> 1"
    by (rule runComment_inv) (simp add: mountComment_fields)
  have p2: "onCompleteCalls (runComment hs ?m) = 0
        \<and> onCompleteCalls (runComment (hs @ [AnimationFinish]) ?m) = 1
        \<and> onCompleteCalls (runComment (hs @ AnimationFinish # es) ?m) = 1"
    if h: "set hs \<subseteq> {MouseEnter, MouseLeave, Click}" and r: "animationRef (runComment hs ?m) = Some Running"
  proof -
    let ?u = "runComment hs ?m"
    from hover_keeps [OF h m] have k: "mounted ?u" "inActivePool ?u" "onCompleteCalls ?u = 0"
      by (simp_all add: mountComment_fields)
    have f: "onCompleteCalls (stepComment AnimationFinish ?u) = 1" "\<not> mounted (stepComment AnimationFinish ?u)"
      using k r by (simp_all add: stepComment_def handleEvent_def onfinish_def cleanupComment_def Let_def)
    from runComment_unmounted [OF f(2), of es] f(1) k(3) show ?thesis
      by (simp add: runComment_append)
  qed
  have p3: "animationRef (runComment (hs @ [Teardown]) ?m) = None
        \<and> onCompleteCalls (runComment (hs @ Teardown # es) ?m) = 0"
    if h: "set hs \<subseteq> {MouseEnter, MouseLeave, Click}"
  proof -
    let ?u = "runComment hs ?m"
    from hover_keeps [OF h m] have k: "mounted ?u" "inActivePool ?u" "onCompleteCalls ?u = 0"
      by (simp_all add: mountComment_fields)
    have f: "onCompleteCalls (stepComment Teardown ?u) = 0" "\<not> mounted (stepComment Teardown ?u)"
      "animationRef (stepComment Teardown ?u) = None"
      using k by (simp_all add: stepComment_def handleEvent_def cleanupComment_def Let_def split: option.splits)
    from runComment_unmounted [OF f(2), of es] f show ?thesis
      by (simp add: runComment_append)
  qed
  from p1 p2 p3 show ?thesis by blast
qed

theorem onComplete_at_most_once_witness:
  "set [MouseEnter, Click, MouseLeave] \<subseteq> {MouseEnter, MouseLeave, Click}
   \<and> animationRef (runComment [MouseEnter, Click, MouseLeave] (mountComment (Some ''c7'') 4 [])) = Some Running
   \<and> onCompleteCalls (runComment ([MouseEnter, Click, MouseLeave] @ AnimationFinish # [MouseLeave, AnimationFinish, Teardown])
        (mountComment (Some ''c7'') 4 [])) = 1
   \<and> onCompleteCalls (runComment ([MouseEnter, Click, MouseLeave] @ Teardown # [MouseLeave, AnimationFinish])
        (mountComment (Some ''c7'') 4 [])) = 0"
proof -
  have a: "set [MouseEnter, Click, MouseLeave] \<subseteq> {MouseEnter, MouseLeave, Click}" by simp
  have b: "animationRef (runComment [MouseEnter, Click, MouseLeave] (mountComment (Some ''c7'') 4 [])) = Some Running"
    by (simp add: stepComment_def handleEvent_def handleMouseEnter_def handleMouseLeave_def
        handleLike_def orNull_def mountComment_fields Let_def)
  from a b onComplete_at_most_once [of "[MouseLeave, AnimationFinish, Teardown]" "Some ''c7''" 4 "[]" "[MouseEnter, Click, MouseLeave]"]
    onComplete_at_most_once [of "[MouseLeave, AnimationFinish]" "Some ''c7''" 4 "[]" "[MouseEnter, Click, MouseLeave]"]
  show ?thesis by blast
qed

section \<open>The jittered sort\<close>

lemma mset_take_drop: "mset (take n xs) + mset (drop n xs) = mset xs"
  by (metis append_take_drop_id mset_append)

lemma mset_countAndMakeRun:
  "mset (fst (countAndMakeRun cmp xs)) + mset (snd (countAndMakeRun cmp xs)) = mset xs"
proof (cases xs)
  case Nil
  then show ?thesis by (simp add: countAndMakeRun_def)
next
  case (Cons a ys)
  show ?thesis
  proof (cases ys)
    case Nil
    with Cons show ?thesis by (simp add: countAndMakeRun_def)
  next
    case (Cons b rest)
    with \<open>xs = a # ys\<close> have xs: "xs = a # b # rest" by simp
    have "fst (countAndMakeRun cmp xs) = rev (take (2 + runDescending cmp b rest) xs)
            \<and> snd (countAndMakeRun cmp xs) = drop (2 + runDescending cmp b rest) xs
          \<or> fst (countAndMakeRun cmp xs) = take (2 + runAscending cmp b rest) xs
            \<and> snd (countAndMakeRun cmp xs) = drop (2 + runAscending cmp b rest) xs"
      unfolding countAndMakeRun_def xs by simp
    then show ?thesis using mset_take_drop [of _ xs] by auto
  qed
qed

lemma mset_binaryInsertionSort:
  "mset (binaryInsertionSort cmp front rest) = mset front + mset rest"
proof (induction rest arbitrary: front)
  case Nil
  show ?case by simp
next
  case (Cons pivot rest)
  have "mset (take (findInsertionPoint cmp pivot front 0 (length front)) front
          @ pivot # drop (findInsertionPoint cmp pivot front 0 (length front)) front) = add_mset pivot (mset front)"
    using mset_take_drop [of "findInsertionPoint cmp pivot front 0 (length front)" front] by simp
  with Cons.IH show ?case by simp
qed

lemma mset_sortJS: "mset (sortJS cmp xs) = mset xs"
  by (simp add: sortJS_def mset_binaryInsertionSort mset_countAndMakeRun)

lemma set_sortJS: "set (sortJS cmp xs) = set xs"
  using mset_sortJS [of cmp xs] by (metis set_mset_mset)

lemma length_sortJS: "length (sortJS cmp xs) = length xs"
  using mset_sortJS [of cmp xs] by (metis size_mset)

lemma sortJS_Nil: "sortJS cmp [] = []"
  by (simp add: sortJS_def countAndMakeRun_def)

lemma compareFn_far:
  assumes "0 \<le> rnd a b" "rnd a b < 1" "c_createdAt a + 1000 < c_createdAt b"
  shows "compareFn rnd a b < 0"
proof -
  from assms(3) have "real_of_int (c_createdAt a - c_createdAt b) < - 1000" by linarith
  moreover from assms(2) have "(rnd a b - 0.5) * 2000 < 1000" by simp
  ultimately show ?thesis by (simp add: compareFn_def Let_def)
qed

lemma compareFn_far':
  assumes "0 \<le> rnd b a" "rnd b a < 1" "c_createdAt a + 1000 < c_createdAt b"
  shows "compareFn rnd b a > 0"
proof -
  from assms(3) have "real_of_int (c_createdAt b - c_createdAt a) > 1000" by linarith
  moreover from assms(1) have "(rnd b a - 0.5) * 2000 \<ge> - 1000" by simp
  ultimately show ?thesis by (simp add: compareFn_def Let_def)
qed

lemma chronological_subset: "chronological cmp S \<Longrightarrow> T \<subseteq> S \<Longrightarrow> chronological cmp T"
  unfolding chronological_def by blast

lemma chronological_neg: "chronological cmp S \<Longrightarrow> x \<in> S \<Longrightarrow> y \<in> S \<Longrightarrow> cmp x y < 0 \<Longrightarrow> c_createdAt x \<le> c_createdAt y"
  unfolding chronological_def by (metis not_le)

lemma chronological_nonneg: "chronological cmp S \<Longrightarrow> x \<in> S \<Longrightarrow> y \<in> S \<Longrightarrow> \<not> cmp x y < 0 \<Longrightarrow> c_createdAt y \<le> c_createdAt x"
  unfolding chronological_def by (metis not_le)

lemma sorted_snoc_le: "sorted (ys @ [b :: int]) \<Longrightarrow> b \<le> a \<Longrightarrow> sorted (ys @ [b, a])"
  by (auto simp: sorted_append intro: order_trans)

lemma runAscending_sorted:
  "chronological cmp (set (p # xs)) \<Longrightarrow> sorted (map c_createdAt (p # take (runAscending cmp p xs) xs))"
proof (induction xs arbitrary: p)
  case Nil
  show ?case by simp
next
  case (Cons x xs)
  show ?case
  proof (cases "cmp x p < 0")
    case True
    then show ?thesis by simp
  next
    case False
    from chronological_nonneg [OF Cons.prems _ _ False] have le: "c_createdAt p \<le> c_createdAt x" by simp
    from Cons.prems have "chronological cmp (set (x # xs))"
      by (rule chronological_subset) auto
    from Cons.IH [OF this] have "sorted (map c_createdAt (x # take (runAscending cmp x xs) xs))" .
    with le False show ?thesis by (auto intro: order_trans)
  qed
qed

lemma runDescending_sorted:
  "chronological cmp (set (p # xs)) \<Longrightarrow>
   sorted (rev (map c_createdAt (p # take (runDescending cmp p xs) xs)))"
proof (induction xs arbitrary: p)
  case Nil
  show ?case by simp
next
  case (Cons x xs)
  show ?case
  proof (cases "0 \<le> cmp x p")
    case True
    then show ?thesis by simp
  next
    case False
    then have neg: "cmp x p < 0" by simp
    from chronological_neg [OF Cons.prems _ _ neg] have le: "c_createdAt x \<le> c_createdAt p" by simp
    from Cons.prems have "chronological cmp (set (x # xs))"
      by (rule chronological_subset) auto
    from Cons.IH [OF this] have s: "sorted (rev (map c_createdAt (x # take (runDescending cmp x xs) xs)))" .
    from s have "sorted (rev (map c_createdAt (take (runDescending cmp x xs) xs)) @ [c_createdAt x])"
      by simp
    from sorted_snoc_le [OF this le] False show ?thesis by simp
  qed
qed

lemma countAndMakeRun_sorted:
  assumes "chronological cmp (set xs)"
  shows "sorted (map c_createdAt (fst (countAndMakeRun cmp xs)))"
proof (cases xs)
  case Nil
  then show ?thesis by (simp add: countAndMakeRun_def)
next
  case (Cons a ys)
  show ?thesis
  proof (cases ys)
    case Nil
    with Cons show ?thesis by (simp add: countAndMakeRun_def)
  next
    case (Cons b rest)
    with \<open>xs = a # ys\<close> have xs: "xs = a # b # rest" by simp
    from assms have cb: "chronological cmp (set (b # rest))"
      by (rule chronological_subset) (auto simp: xs)
    show ?thesis
    proof (cases "cmp b a < 0")
      case True
      from chronological_neg [OF assms _ _ True] have le: "c_createdAt b \<le> c_createdAt a" by (simp add: xs)
      from runDescending_sorted [OF cb]
      have s: "sorted (rev (map c_createdAt (b # take (runDescending cmp b rest) rest)))" .
      from s have "sorted (rev (map c_createdAt (take (runDescending cmp b rest) rest)) @ [c_createdAt b])"
        by simp
      from sorted_snoc_le [OF this le] True show ?thesis by (simp add: countAndMakeRun_def xs rev_map)
    next
      case False
      from chronological_nonneg [OF assms _ _ False] have le: "c_createdAt a \<le> c_createdAt b" by (simp add: xs)
      from runAscending_sorted [OF cb]
      have "sorted (map c_createdAt (b # take (runAscending cmp b rest) rest))" .
      with False le show ?thesis by (auto simp: countAndMakeRun_def xs intro: order_trans)
    qed
  qed
qed

lemma findInsertionPoint_bounds:
  "chronological cmp (insert pivot (set xs)) \<Longrightarrow> right \<le> length xs \<Longrightarrow> left \<le> right \<Longrightarrow>
   sorted (map c_createdAt xs) \<Longrightarrow>
   \<forall>i<left. c_createdAt (xs ! i) \<le> c_createdAt pivot \<Longrightarrow>
   \<forall>i. right \<le> i \<and> i < length xs \<longrightarrow> c_createdAt pivot \<le> c_createdAt (xs ! i) \<Longrightarrow>
   findInsertionPoint cmp pivot xs left right \<le> length xs
   \<and> (\<forall>i<findInsertionPoint cmp pivot xs left right. c_createdAt (xs ! i) \<le> c_createdAt pivot)
   \<and> (\<forall>i. findInsertionPoint cmp pivot xs left right \<le> i \<and> i < length xs
          \<longrightarrow> c_createdAt pivot \<le> c_createdAt (xs ! i))"
proof (induction cmp pivot xs left right rule: findInsertionPoint.induct)
  case (1 cmp pivot xs left right)
  let ?mid = "left + (right - left) div 2"
  show ?case
  proof (cases "left < right")
    case False
    then have e: "findInsertionPoint cmp pivot xs left right = left"
      by (subst findInsertionPoint.simps) simp
    from False "1.prems"(3) have "left = right" by simp
    with "1.prems" show ?thesis unfolding e by simp
  next
    case True
    then have mid: "left \<le> ?mid" "?mid < right" by simp_all
    with "1.prems"(2) have inb: "?mid < length xs" by simp
    then have mem: "xs ! ?mid \<in> insert pivot (set xs)" by simp
    have srt: "\<And>i j. i \<le> j \<Longrightarrow> j < length xs \<Longrightarrow> c_createdAt (xs ! i) \<le> c_createdAt (xs ! j)"
      using "1.prems"(4) by (simp add: sorted_iff_nth_mono)
    show ?thesis
    proof (cases "cmp pivot (xs ! ?mid) < 0")
      case neg: True
      from chronological_neg [OF "1.prems"(1) _ mem neg]
      have le: "c_createdAt pivot \<le> c_createdAt (xs ! ?mid)" by simp
      have up: "\<forall>i. ?mid \<le> i \<and> i < length xs \<longrightarrow> c_createdAt pivot \<le> c_createdAt (xs ! i)"
        using le srt by (meson order_trans)
      from mid "1.prems"(2) have r: "?mid \<le> length xs" by simp
      have e: "findInsertionPoint cmp pivot xs left right = findInsertionPoint cmp pivot xs left ?mid"
        using True neg by (subst findInsertionPoint.simps) simp
      from "1.IH"(1) [OF True neg "1.prems"(1) r mid(1) "1.prems"(4) "1.prems"(5) up]
      show ?thesis unfolding e .
    next
      case nonneg: False
      from chronological_nonneg [OF "1.prems"(1) _ mem nonneg]
      have le: "c_createdAt (xs ! ?mid) \<le> c_createdAt pivot" by simp
      have lo: "\<forall>i<?mid + 1. c_createdAt (xs ! i) \<le> c_createdAt pivot"
      proof (intro allI impI)
        fix i assume "i < ?mid + 1"
        then have "i \<le> ?mid" by simp
        from srt [OF this inb] le show "c_createdAt (xs ! i) \<le> c_createdAt pivot" by simp
      qed
      from mid have l: "?mid + 1 \<le> right" by simp
      have e: "findInsertionPoint cmp pivot xs left right = findInsertionPoint cmp pivot xs (?mid + 1) right"
        using True nonneg by (subst findInsertionPoint.simps) simp
      from "1.IH"(2) [OF True nonneg "1.prems"(1) "1.prems"(2) l "1.prems"(4) lo "1.prems"(6)]
      show ?thesis unfolding e .
    qed
  qed
qed

lemma insert_sorted:
  assumes c: "chronological cmp (insert pivot (set xs))" and s: "sorted (map c_createdAt xs)"
  shows "sorted (map c_createdAt (take (findInsertionPoint cmp pivot xs 0 (length xs)) xs
            @ pivot # drop (findInsertionPoint cmp pivot xs 0 (length xs)) xs))"
proof -
  let ?r = "findInsertionPoint cmp pivot xs 0 (length xs)"
  from findInsertionPoint_bounds [OF c _ _ s, of "length xs" 0]
  have r: "?r \<le> length xs" and lo: "\<forall>i<?r. c_createdAt (xs ! i) \<le> c_createdAt pivot"
    and hi: "\<forall>i. ?r \<le> i \<and> i < length xs \<longrightarrow> c_createdAt pivot \<le> c_createdAt (xs ! i)"
    by simp_all
  have a: "\<forall>x\<in>set (take ?r xs). c_createdAt x \<le> c_createdAt pivot"
  proof
    fix x assume "x \<in> set (take ?r xs)"
    then obtain i where "i < length (take ?r xs)" "take ?r xs ! i = x" by (meson in_set_conv_nth)
    with lo show "c_createdAt x \<le> c_createdAt pivot" by auto
  qed
  have b: "\<forall>y\<in>set (drop ?r xs). c_createdAt pivot \<le> c_createdAt y"
  proof
    fix y assume "y \<in> set (drop ?r xs)"
    then obtain i where i: "i < length (drop ?r xs)" "drop ?r xs ! i = y" by (meson in_set_conv_nth)
    with r have "?r + i < length xs" "xs ! (?r + i) = y" by simp_all
    with hi show "c_createdAt pivot \<le> c_createdAt y" by (metis le_add1)
  qed
  from s have st: "sorted (map c_createdAt (take ?r xs))" and sd: "sorted (map c_createdAt (drop ?r xs))"
    by (simp_all add: sorted_wrt_take sorted_wrt_drop sorted_map)
  show ?thesis
    using a b st sd by (auto simp: sorted_append dest: order_trans)
qed

lemma binaryInsertionSort_sorted:
  "chronological cmp (set front \<union> set rest) \<Longrightarrow> sorted (map c_createdAt front) \<Longrightarrow>
   sorted (map c_createdAt (binaryInsertionSort cmp front rest))"
proof (induction rest arbitrary: front)
  case Nil
  then show ?case by simp
next
  case (Cons pivot rest)
  let ?r = "findInsertionPoint cmp pivot front 0 (length front)"
  let ?f = "take ?r front @ pivot # drop ?r front"
  from Cons.prems(1) have c: "chronological cmp (insert pivot (set front))"
    by (rule chronological_subset) auto
  have s: "sorted (map c_createdAt ?f)" by (rule insert_sorted [OF c Cons.prems(2)])
  have "set ?f = insert pivot (set front)"
    by (metis append_take_drop_id list.simps(15) set_append Un_insert_right)
  with Cons.prems(1) have "chronological cmp (set ?f \<union> set rest)"
    by (simp add: insert_commute Un_commute)
  from Cons.IH [OF this s] show ?case by simp
qed

lemma sortJS_sorted:
  assumes "chronological cmp (set xs)"
  shows "sorted (map c_createdAt (sortJS cmp xs))"
proof -
  have "set (fst (countAndMakeRun cmp xs)) \<union> set (snd (countAndMakeRun cmp xs)) = set xs"
    using mset_countAndMakeRun [of cmp xs] by (metis set_mset_mset set_mset_union)
  with assms have c: "chronological cmp (set (fst (countAndMakeRun cmp xs)) \<union> set (snd (countAndMakeRun cmp xs)))"
    by simp
  show ?thesis unfolding sortJS_def
    by (rule binaryInsertionSort_sorted [OF c countAndMakeRun_sorted [OF assms]])
qed

lemma compareFn_chronological:
  assumes rng: "\<forall>a b. 0 \<le> rnd a b \<and> rnd a b < 1"
    and apart: "\<forall>a\<in>S. \<forall>b\<in>S. c_createdAt a < c_createdAt b \<longrightarrow> c_createdAt a + 1000 < c_createdAt b"
  shows "chronological (compareFn rnd) S"
  unfolding chronological_def
proof (intro ballI conjI impI)
  fix x y assume x: "x \<in> S" and y: "y \<in> S"
  { assume "c_createdAt x < c_createdAt y"
    with apart x y have "c_createdAt x + 1000 < c_createdAt y" by simp
    from compareFn_far [OF _ _ this, of rnd] rng show "compareFn rnd x y < 0" by simp }
  { assume "c_createdAt y < c_createdAt x"
    with apart x y have "c_createdAt y + 1000 < c_createdAt x" by simp
    from compareFn_far' [OF _ _ this, of rnd] rng show "0 \<le> compareFn rnd x y" by simp }
qed

lemma sortJS_chronological:
  assumes rng: "\<forall>a b. 0 \<le> rnd a b \<and> rnd a b < 1"
    and apart: "\<forall>a\<in>set xs. \<forall>b\<in>set xs. c_createdAt a < c_createdAt b \<longrightarrow> c_createdAt a + 1000 < c_createdAt b"
  shows "sorted (map c_createdAt (sortJS (compareFn rnd) xs))"
  by (rule sortJS_sorted) (rule compareFn_chronological [OF rng apart])

section \<open>One release step\<close>

lemma addDanmaku_other:
  "timers (addDanmaku i t c st) = timers st"
  "nextHandle (addDanmaku i t c st) = nextHandle st"
  "comments (addDanmaku i t c st) = comments st"
  "playedCommentIds (addDanmaku i t c st) = playedCommentIds st"
  "isProcessing (addDanmaku i t c st) = isProcessing st"
  "isRestarting (addDanmaku i t c st) = isRestarting st"
  "restartTimer (addDanmaku i t c st) = restartTimer st"
  "cleanup (addDanmaku i t c st) = cleanup st"
  by (simp_all add: addDanmaku_def Let_def)

lemma addDanmaku_active:
  "hasText (c_text c) \<Longrightarrow>
   \<exists>dm. activeDanmaku (addDanmaku i (c_text c) (Some c) st) = activeDanmaku st @ [dm] \<and> content dm = shown c"
  by (simp add: addDanmaku_def Let_def content_def shown_def)

lemma addDanmaku_skip: "\<not> hasText t \<Longrightarrow> addDanmaku i t c st = st"
  by (simp add: addDanmaku_def)

lemma playLoop_other:
  "timers (playLoop d i cs st) = timers st"
  "nextHandle (playLoop d i cs st) = nextHandle st"
  "comments (playLoop d i cs st) = comments st"
  "isProcessing (playLoop d i cs st) = isProcessing st"
  "isRestarting (playLoop d i cs st) = isRestarting st"
  "restartTimer (playLoop d i cs st) = restartTimer st"
  "cleanup (playLoop d i cs st) = cleanup st"
  by (induction cs arbitrary: i st; simp add: addDanmaku_other)+

lemma playLoop_played:
  "playedCommentIds (playLoop d i cs st) = playedCommentIds st \<union> c_id ` set cs"
  by (induction cs arbitrary: i st) (simp_all add: addDanmaku_other)

lemma playLoop_active:
  "\<forall>c\<in>set cs. hasText (c_text c) \<Longrightarrow>
   \<exists>new. activeDanmaku (playLoop d i cs st) = activeDanmaku st @ new \<and> map content new = map shown cs"
proof (induction cs arbitrary: i st)
  case Nil
  show ?case by simp
next
  case (Cons c cs)
  from Cons.prems have hc: "hasText (c_text c)" and rest: "\<forall>c\<in>set cs. hasText (c_text c)" by simp_all
  from addDanmaku_active [OF hc, of "newId d i" st] obtain dm where
    dm: "activeDanmaku (addDanmaku (newId d i) (c_text c) (Some c) st) = activeDanmaku st @ [dm]"
      "content dm = shown c" by blast
  let ?st1 = "(addDanmaku (newId d i) (c_text c) (Some c) st)
          \<lparr>playedCommentIds := insert (c_id c) (playedCommentIds (addDanmaku (newId d i) (c_text c) (Some c) st))\<rparr>"
  from Cons.IH [OF rest, of "Suc i" ?st1] obtain new where
    new: "activeDanmaku (playLoop d (Suc i) cs ?st1) = activeDanmaku ?st1 @ new" "map content new = map shown cs"
    by blast
  have "activeDanmaku (playLoop d i (c # cs) st) = activeDanmaku st @ (dm # new)"
    using new(1) dm(1) by simp
  moreover have "map content (dm # new) = map shown (c # cs)"
    using new(2) dm(2) by simp
  ultimately show ?case by blast
qed

lemma toPlayNow_le: "toPlayNow cl d cs \<le> length cs"
  by (simp add: toPlayNow_def Let_def)

lemma toPlayNow_formula:
  "int (toPlayNow cl d cs) =
     min (max 0 (maxConcurrent d - int (length (s_activeDanmaku cl)))) (min (int (length cs)) (perTickCap d))"
  by (simp add: toPlayNow_def Let_def perTickCap_def)

lemma maxConcurrent_range:
  assumes "0 \<le> rndMax d" "rndMax d < 1"
  shows "(if isMobile d then 8 \<le> maxConcurrent d \<and> maxConcurrent d \<le> 12
          else 20 \<le> maxConcurrent d \<and> maxConcurrent d \<le> 35)"
proof -
  from assms have "0 \<le> \<lfloor>rndMax d * 5\<rfloor>" "\<lfloor>rndMax d * 5\<rfloor> < 5" "0 \<le> \<lfloor>rndMax d * 16\<rfloor>" "\<lfloor>rndMax d * 16\<rfloor> < 16"
    by (simp_all add: floor_less_iff)
  then show ?thesis by (simp add: maxConcurrent_def)
qed

lemma maxConcurrent_ge: "0 \<le> rndMax d \<Longrightarrow> 8 \<le> maxConcurrent d"
proof -
  assume "0 \<le> rndMax d"
  then have "0 \<le> \<lfloor>rndMax d * 5\<rfloor>" "0 \<le> \<lfloor>rndMax d * 16\<rfloor>" by simp_all
  then show ?thesis by (simp add: maxConcurrent_def)
qed

lemma toPlayNow_pos:
  "0 \<le> rndMax d \<Longrightarrow> length (s_activeDanmaku cl) < 8 \<Longrightarrow> cs \<noteq> [] \<Longrightarrow> 0 < toPlayNow cl d cs"
proof -
  assume a: "0 \<le> rndMax d" "length (s_activeDanmaku cl) < 8" "cs \<noteq> []"
  from maxConcurrent_ge [OF a(1)] a(2) have "0 < maxConcurrent d - int (length (s_activeDanmaku cl))" by simp
  moreover from a(3) have "0 < int (length cs)" by simp
  moreover have "0 < perTickCap d" by (simp add: perTickCap_def)
  ultimately have "0 < int (toPlayNow cl d cs)" unfolding toPlayNow_formula by simp
  then show ?thesis by simp
qed

lemma playNextBatch_other:
  "comments (playNextBatch cl d cs st) = comments st"
  "isProcessing (playNextBatch cl d cs st) = isProcessing st"
  "isRestarting (playNextBatch cl d cs st) = isRestarting st"
  "restartTimer (playNextBatch cl d cs st) = restartTimer st"
  "cleanup (playNextBatch cl d cs st) = cleanup st"
  "playedCommentIds (playNextBatch cl d cs st) = playedCommentIds st \<union> c_id ` set (take (toPlayNow cl d cs) cs)"
  "activeDanmaku (playNextBatch cl d cs st) = activeDanmaku (playLoop d 0 (take (toPlayNow cl d cs) cs) st)"
  "timers (playNextBatch cl d cs st) =
     (if drop (toPlayNow cl d cs) cs = [] then timers st
      else timers st @ [(nextHandle st, randomDelay d, NextBatch cl (drop (toPlayNow cl d cs) cs))])"
  by (cases "cs = []"; simp add: playNextBatch_def Let_def setTimeout_def playLoop_other playLoop_played)+

lemma playNextBatch_length:
  assumes "\<forall>c\<in>set cs. hasText (c_text c)"
  shows "length (activeDanmaku (playNextBatch cl d cs st)) = length (activeDanmaku st) + toPlayNow cl d cs"
proof -
  let ?n = "toPlayNow cl d cs"
  from assms have "\<forall>c\<in>set (take ?n cs). hasText (c_text c)" by (meson in_set_takeD)
  from playLoop_active [OF this, of d 0 st] obtain new where
    new: "activeDanmaku (playLoop d 0 (take ?n cs) st) = activeDanmaku st @ new"
      "map content new = map shown (take ?n cs)" by blast
  from new(2) have "length new = length (take ?n cs)" by (metis length_map)
  with toPlayNow_le [of cl d cs] have "length new = ?n" by simp
  with new(1) show ?thesis by (simp add: playNextBatch_other)
qed

text \<open>
  One call of \<^verbatim>\<open>playNextBatch\<close> on comments with text
  releases exactly \<open>min (max 0 (maxConcurrent - n)) (min |commentsToPlay| perTickCap)\<close>
  units, where \<open>n\<close> is the length of \<^verbatim>\<open>activeDanmaku\<close> in the render the call closes
  over, \<open>maxConcurrent\<close> is the target drawn for the batch (8 to 12 on a narrow viewport,
  20 to 35 on a wide one) and \<open>perTickCap\<close> is 2 or 3. When that render is the current
  one, the pool after the release is at most the larger of the target and the pool before.
\<close>

lemma release_count_of_closure:
  "perTickCap d = (if isMobile d then 2 else 3)
   \<and> (0 \<le> rndMax d \<and> rndMax d < 1 \<longrightarrow>
        (if isMobile d then 8 \<le> maxConcurrent d \<and> maxConcurrent d \<le> 12
         else 20 \<le> maxConcurrent d \<and> maxConcurrent d \<le> 35))
   \<and> int (toPlayNow cl d cs) =
        min (max 0 (maxConcurrent d - int (length (s_activeDanmaku cl)))) (min (int (length cs)) (perTickCap d))
   \<and> ((\<forall>c\<in>set cs. hasText (c_text c)) \<longrightarrow>
        length (activeDanmaku (playNextBatch cl d cs st)) = length (activeDanmaku st) + toPlayNow cl d cs
        \<and> int (length (activeDanmaku (playNextBatch (render st) d cs st)))
            \<le> max (maxConcurrent d) (int (length (activeDanmaku st))))"
proof -
  have a: "perTickCap d = (if isMobile d then 2 else 3)" by (simp add: perTickCap_def)
  have b: "(if isMobile d then 8 \<le> maxConcurrent d \<and> maxConcurrent d \<le> 12
         else 20 \<le> maxConcurrent d \<and> maxConcurrent d \<le> 35)" if "0 \<le> rndMax d \<and> rndMax d < 1"
    using that maxConcurrent_range [of d] by blast
  have c: "length (activeDanmaku (playNextBatch cl d cs st)) = length (activeDanmaku st) + toPlayNow cl d cs
        \<and> int (length (activeDanmaku (playNextBatch (render st) d cs st)))
            \<le> max (maxConcurrent d) (int (length (activeDanmaku st)))"
    if h: "\<forall>c\<in>set cs. hasText (c_text c)"
  proof -
    have "int (toPlayNow (render st) d cs) \<le> max 0 (maxConcurrent d - int (length (activeDanmaku st)))"
      unfolding toPlayNow_formula by (simp add: render_def)
    then have "int (length (activeDanmaku st)) + int (toPlayNow (render st) d cs)
        \<le> max (maxConcurrent d) (int (length (activeDanmaku st)))" by linarith
    with playNextBatch_length [OF h, of "render st" d st] playNextBatch_length [OF h, of cl d st]
    show ?thesis by simp
  qed
  from a b c toPlayNow_formula [of cl d cs] show ?thesis by blast
qed

section \<open>A release cycle\<close>

lemma drain_idle: "find isBatch (timers st) = None \<Longrightarrow> drain ds st = Some st"
  by (cases ds) simp_all

lemma fire_single: "timers st = [(h, t, cb)] \<Longrightarrow> fire h d st = runCallback d cb (st\<lparr>timers := []\<rparr>)"
  by (simp add: fire_def clearTimeout_def)

lemma batch_step:
  assumes T: "timers st = [(h, t, cb)]"
    and cb: "cb = StartBatch cl cs \<or> cb = NextBatch cl cs"
    and hasT: "\<forall>c\<in>set cs. hasText (c_text c)"
  shows "\<exists>new. activeDanmaku (fire h d st) = activeDanmaku st @ new
           \<and> map content new = map shown (take (toPlayNow cl d cs) cs)"
    and "playedCommentIds (fire h d st) = playedCommentIds st \<union> c_id ` set (take (toPlayNow cl d cs) cs)"
    and "timers (fire h d st) =
           (if drop (toPlayNow cl d cs) cs = [] then []
            else [(nextHandle st, randomDelay d, NextBatch cl (drop (toPlayNow cl d cs) cs))])"
    and "comments (fire h d st) = comments st"
    and "isRestarting (fire h d st) = isRestarting st"
proof -
  let ?n = "toPlayNow cl d cs"
  let ?s0 = "st\<lparr>timers := []\<rparr>"
  from hasT have tk: "\<forall>c\<in>set (take ?n cs). hasText (c_text c)" by (meson in_set_takeD)
  from playLoop_active [OF tk, of d 0 ?s0] obtain new where
    new: "activeDanmaku (playLoop d 0 (take ?n cs) ?s0) = activeDanmaku ?s0 @ new"
      "map content new = map shown (take ?n cs)" by blast
  from cb have f: "fire h d st = (playNextBatch cl d cs ?s0) \<or>
      fire h d st = (playNextBatch cl d cs ?s0)\<lparr>isProcessing := False\<rparr>"
    using fire_single [OF T, of d] by (auto simp: runCallback_def)
  from f new show "\<exists>new. activeDanmaku (fire h d st) = activeDanmaku st @ new
           \<and> map content new = map shown (take ?n cs)"
    by (auto simp: playNextBatch_other)
  from f show "playedCommentIds (fire h d st) = playedCommentIds st \<union> c_id ` set (take ?n cs)"
    by (auto simp: playNextBatch_other)
  from f show "timers (fire h d st) =
           (if drop ?n cs = [] then [] else [(nextHandle st, randomDelay d, NextBatch cl (drop ?n cs))])"
    by (auto simp: playNextBatch_other)
  from f show "comments (fire h d st) = comments st" by (auto simp: playNextBatch_other)
  from f show "isRestarting (fire h d st) = isRestarting st" by (auto simp: playNextBatch_other)
qed

lemma chain_partial:
  "timers st = [(h, t, cb)] \<Longrightarrow> cb = StartBatch cl cs \<or> cb = NextBatch cl cs \<Longrightarrow>
   \<forall>c\<in>set cs. hasText (c_text c) \<Longrightarrow> drain ds st = Some st' \<Longrightarrow>
   (\<exists>new. activeDanmaku st' = activeDanmaku st @ new \<and> map content new = map shown cs)
   \<and> playedCommentIds st' = playedCommentIds st \<union> c_id ` set cs
   \<and> timers st' = [] \<and> comments st' = comments st \<and> isRestarting st' = isRestarting st"
proof (induction ds arbitrary: st h t cb cs)
  case Nil
  from Nil.prems(2) have "isBatch (h, t, cb)" by (auto simp: isBatch_def)
  with Nil.prems(1,4) show ?case by simp
next
  case (Cons d ds)
  let ?n = "toPlayNow cl d cs"
  let ?s1 = "fire h d st"
  from Cons.prems(2) have b: "isBatch (h, t, cb)" by (auto simp: isBatch_def)
  with Cons.prems(1,4) have dr: "drain ds ?s1 = Some st'" by simp
  note step = batch_step [OF Cons.prems(1,2,3), of d]
  from step(1) obtain new1 where new1: "activeDanmaku ?s1 = activeDanmaku st @ new1"
    "map content new1 = map shown (take ?n cs)" by blast
  show ?case
  proof (cases "drop ?n cs = []")
    case True
    with step(3) have "timers ?s1 = []" by simp
    then have "drain ds ?s1 = Some ?s1" by (simp add: drain_idle)
    with dr have e: "st' = ?s1" by simp
    from True have all: "take ?n cs = cs" by simp
    from e new1 step(2,3,4,5) True all show ?thesis by auto
  next
    case False
    with step(3) have T1: "timers ?s1 = [(nextHandle st, randomDelay d, NextBatch cl (drop ?n cs))]" by simp
    from Cons.prems(3) have txt1: "\<forall>c\<in>set (drop ?n cs). hasText (c_text c)" by (meson in_set_dropD)
    from Cons.IH [OF T1 _ txt1 dr] obtain new2 where
      new2: "activeDanmaku st' = activeDanmaku ?s1 @ new2" "map content new2 = map shown (drop ?n cs)"
      and rest: "playedCommentIds st' = playedCommentIds ?s1 \<union> c_id ` set (drop ?n cs)"
        "timers st' = []" "comments st' = comments ?s1" "isRestarting st' = isRestarting ?s1"
      by blast
    have "activeDanmaku st' = activeDanmaku st @ (new1 @ new2)" using new1(1) new2(1) by simp
    moreover have "map content (new1 @ new2) = map shown cs"
      using new1(2) new2(2) by (metis append_take_drop_id map_append)
    moreover have "playedCommentIds st' = playedCommentIds st \<union> c_id ` set cs"
    proof -
      have "set cs = set (take ?n cs) \<union> set (drop ?n cs)" by (metis append_take_drop_id set_append)
      with rest(1) step(2) show ?thesis by auto
    qed
    ultimately have "\<exists>new. activeDanmaku st' = activeDanmaku st @ new \<and> map content new = map shown cs"
      and "playedCommentIds st' = playedCommentIds st \<union> c_id ` set cs"
      by blast+
    then show ?thesis using rest(2,3,4) step(4,5) by simp
  qed
qed

lemma chain_partial_drop:
  assumes "timers st = [(h, t, cb)]" "cb = StartBatch cl cs \<or> cb = NextBatch cl cs"
    "\<forall>c\<in>set cs. hasText (c_text c)" "drain ds st = Some st'"
  shows "take (length (activeDanmaku st)) (activeDanmaku st') = activeDanmaku st"
    and "map content (drop (length (activeDanmaku st)) (activeDanmaku st')) = map shown cs"
    and "playedCommentIds st' = playedCommentIds st \<union> c_id ` set cs"
    and "timers st' = []"
proof -
  note c = chain_partial [OF assms]
  from c obtain new where new: "activeDanmaku st' = activeDanmaku st @ new" "map content new = map shown cs"
    by (elim conjE exE)
  from new show "take (length (activeDanmaku st)) (activeDanmaku st') = activeDanmaku st" by simp
  from new show "map content (drop (length (activeDanmaku st)) (activeDanmaku st')) = map shown cs" by simp
  from c show "playedCommentIds st' = playedCommentIds st \<union> c_id ` set cs" by (elim conjE)
  from c show "timers st' = []" by (elim conjE)
qed

lemma chain_total:
  "timers st = [(h, t, cb)] \<Longrightarrow> cb = StartBatch cl cs \<or> cb = NextBatch cl cs \<Longrightarrow>
   \<forall>c\<in>set cs. hasText (c_text c) \<Longrightarrow> length (s_activeDanmaku cl) < 8 \<Longrightarrow>
   \<forall>d\<in>set ds. 0 \<le> rndMax d \<Longrightarrow> length cs \<le> length ds \<Longrightarrow> cs \<noteq> [] \<Longrightarrow>
   \<exists>st'. drain ds st = Some st'"
proof (induction ds arbitrary: st h t cb cs)
  case Nil
  then show ?case by simp
next
  case (Cons d ds)
  let ?n = "toPlayNow cl d cs"
  let ?s1 = "fire h d st"
  from Cons.prems(2) have b: "isBatch (h, t, cb)" by (auto simp: isBatch_def)
  with Cons.prems(1) have dr: "drain (d # ds) st = drain ds ?s1" by simp
  note step = batch_step [OF Cons.prems(1,2,3), of d]
  from Cons.prems(5) have d0: "0 \<le> rndMax d" by simp
  from toPlayNow_pos [OF d0 Cons.prems(4,7)] have pos: "0 < ?n" .
  show ?case
  proof (cases "drop ?n cs = []")
    case True
    with step(3) have "timers ?s1 = []" by simp
    then have "drain ds ?s1 = Some ?s1" by (simp add: drain_idle)
    with dr show ?thesis by simp
  next
    case False
    with step(3) have T1: "timers ?s1 = [(nextHandle st, randomDelay d, NextBatch cl (drop ?n cs))]" by simp
    from Cons.prems(3) have txt1: "\<forall>c\<in>set (drop ?n cs). hasText (c_text c)" by (meson in_set_dropD)
    from Cons.prems(5) have ds: "\<forall>d\<in>set ds. 0 \<le> rndMax d" by simp
    from pos Cons.prems(6) have len: "length (drop ?n cs) \<le> length ds" by simp
    from Cons.IH [OF T1 _ txt1 Cons.prems(4) ds len False] dr show ?thesis by simp
  qed
qed

lemma runCleanup_fields:
  "comments (runCleanup st) = comments st"
  "activeDanmaku (runCleanup st) = activeDanmaku st"
  "playedCommentIds (runCleanup st) = playedCommentIds st"
  "nextHandle (runCleanup st) = nextHandle st"
  "restartTimer (runCleanup st) = restartTimer st"
  "autoPlayTimer (runCleanup st) = autoPlayTimer st"
  "timers st = [] \<Longrightarrow> timers (runCleanup st) = []"
  "\<not> isProcessing st \<Longrightarrow> \<not> isProcessing (runCleanup st)"
  "\<not> isRestarting st \<Longrightarrow> \<not> isRestarting (runCleanup st)"
  by (simp_all add: runCleanup_def clearTimeout_def Let_def split: option.splits)

lemma newComments_cong:
  "comments a = comments b \<Longrightarrow> playedCommentIds a = playedCommentIds b \<Longrightarrow>
   newComments rnd a = newComments rnd b"
  by (simp add: newComments_def)

lemma newComments_hasText: "\<forall>c\<in>set (newComments rnd st). hasText (c_text c)"
  by (simp add: newComments_def set_sortJS)

lemma allComments_hasText: "\<forall>c\<in>set (allComments rnd st). hasText (c_text c)"
  by (simp add: allComments_def set_sortJS)

lemma autoPlayEffect_start:
  assumes "\<not> isProcessing st" "\<not> isRestarting st" "timers st = []"
  shows "activeDanmaku (autoPlayEffect rnd st) = activeDanmaku st"
    and "playedCommentIds (autoPlayEffect rnd st) = playedCommentIds st"
    and "comments (autoPlayEffect rnd st) = comments st"
    and "\<not> isRestarting (autoPlayEffect rnd st)"
    and "timers (autoPlayEffect rnd st) =
           (if newComments rnd st = [] then []
            else [(nextHandle st, 1000, StartBatch (render st) (newComments rnd st))])"
proof -
  have e: "comments st = [] \<Longrightarrow> newComments rnd st = []"
    by (simp add: newComments_def sortJS_Nil)
  show "activeDanmaku (autoPlayEffect rnd st) = activeDanmaku st"
    by (simp add: autoPlayEffect_def Let_def setTimeout_def clearTimeout_def split: option.splits)
  show "playedCommentIds (autoPlayEffect rnd st) = playedCommentIds st"
    by (simp add: autoPlayEffect_def Let_def setTimeout_def clearTimeout_def split: option.splits)
  show "comments (autoPlayEffect rnd st) = comments st"
    by (simp add: autoPlayEffect_def Let_def setTimeout_def clearTimeout_def split: option.splits)
  show "\<not> isRestarting (autoPlayEffect rnd st)"
    using assms by (simp add: autoPlayEffect_def Let_def setTimeout_def clearTimeout_def split: option.splits)
  show "timers (autoPlayEffect rnd st) =
           (if newComments rnd st = [] then []
            else [(nextHandle st, 1000, StartBatch (render st) (newComments rnd st))])"
    using assms e
    by (auto simp: autoPlayEffect_def Let_def setTimeout_def clearTimeout_def split: option.splits)
qed

lemma afterRender_idle: "\<not> isRestarting st \<Longrightarrow> afterRender rnd prev st = st"
  by (simp add: afterRender_def restartEffect_def)

lemma setComments_start:
  assumes "\<not> isProcessing st" "\<not> isRestarting st" "timers st = []"
  shows "activeDanmaku (setComments rnd cs st) = activeDanmaku st"
    and "playedCommentIds (setComments rnd cs st) = playedCommentIds st"
    and "comments (setComments rnd cs st) = cs"
    and "timers (setComments rnd cs st) =
           (if newComments rnd (st\<lparr>comments := cs\<rparr>) = [] then []
            else [(nextHandle st, 1000, StartBatch (render (runCleanup (st\<lparr>comments := cs\<rparr>)))
                     (newComments rnd (st\<lparr>comments := cs\<rparr>)))])"
    and "s_activeDanmaku (render (runCleanup (st\<lparr>comments := cs\<rparr>))) = activeDanmaku st"
proof -
  let ?s1 = "runCleanup (st\<lparr>comments := cs\<rparr>)"
  have p: "\<not> isProcessing ?s1" "\<not> isRestarting ?s1" "timers ?s1 = []"
    using assms by (simp_all add: runCleanup_fields)
  have nc: "newComments rnd ?s1 = newComments rnd (st\<lparr>comments := cs\<rparr>)"
    by (rule newComments_cong) (simp_all add: runCleanup_fields)
  note ap = autoPlayEffect_start [OF p, of rnd]
  have sc: "setComments rnd cs st = autoPlayEffect rnd ?s1"
    unfolding setComments_def by (rule afterRender_idle) (rule ap(4))
  show "activeDanmaku (setComments rnd cs st) = activeDanmaku st"
    by (simp add: sc ap runCleanup_fields)
  show "playedCommentIds (setComments rnd cs st) = playedCommentIds st"
    by (simp add: sc ap runCleanup_fields)
  show "comments (setComments rnd cs st) = cs"
    by (simp add: sc ap runCleanup_fields)
  show "timers (setComments rnd cs st) =
           (if newComments rnd (st\<lparr>comments := cs\<rparr>) = [] then []
            else [(nextHandle st, 1000, StartBatch (render ?s1) (newComments rnd (st\<lparr>comments := cs\<rparr>)))])"
    by (simp add: sc ap nc runCleanup_fields)
  show "s_activeDanmaku (render ?s1) = activeDanmaku st"
    by (simp add: runCleanup_fields render_def)
qed

lemma length_newComments: "length (newComments rnd (st\<lparr>comments := cs\<rparr>)) \<le> length cs"
  by (simp add: newComments_def length_sortJS)

text \<open>
  A comment list \<open>cs\<close> is supplied to an idle scheduler and the release step is
  run until no batch is pending. The comments released are a permutation of the comments
  of \<open>cs\<close> that have text and are not in \<^verbatim>\<open>playedCommentIds\<close> (all the comments with
  text when that set is empty): each is added to \<^verbatim>\<open>activeDanmaku\<close> exactly once, in the
  sorted order, the units already active stay, and exactly the ids of the released comments
  are added to \<^verbatim>\<open>playedCommentIds\<close>. The run ends within one draw per comment when fewer
  than 8 units were active at the time the comments were supplied.
\<close>

lemma idle_cycle_releases_once:
  assumes idle: "\<not> isProcessing st" "\<not> isRestarting st" "timers st = []"
  shows "mset (newComments rnd (st\<lparr>comments := cs\<rparr>))
           = mset (filter (\<lambda>c. c_id c \<notin> playedCommentIds st \<and> hasText (c_text c)) cs)
     \<and> (\<forall>st'. drain ds (setComments rnd cs st) = Some st' \<longrightarrow>
          take (length (activeDanmaku st)) (activeDanmaku st') = activeDanmaku st
          \<and> map content (drop (length (activeDanmaku st)) (activeDanmaku st'))
               = map shown (newComments rnd (st\<lparr>comments := cs\<rparr>))
          \<and> playedCommentIds st' = playedCommentIds st
               \<union> c_id ` {c \<in> set cs. c_id c \<notin> playedCommentIds st \<and> hasText (c_text c)}
          \<and> timers st' = [])
     \<and> (length (activeDanmaku st) < 8 \<and> (\<forall>d\<in>set ds. 0 \<le> rndMax d) \<and> length cs \<le> length ds \<longrightarrow>
          (\<exists>st'. drain ds (setComments rnd cs st) = Some st'))"
proof -
  let ?new = "newComments rnd (st\<lparr>comments := cs\<rparr>)"
  let ?s1 = "setComments rnd cs st"
  note sc = setComments_start [OF idle]
  define cl where "cl = render (runCleanup (st\<lparr>comments := cs\<rparr>))"
  from sc(4,5) have cl: "s_activeDanmaku cl = activeDanmaku st"
    "timers ?s1 = (if ?new = [] then [] else [(nextHandle st, 1000, StartBatch cl ?new)])"
    by (simp_all only: cl_def)
  have m: "mset ?new = mset (filter (\<lambda>c. c_id c \<notin> playedCommentIds st \<and> hasText (c_text c)) cs)"
    by (simp add: newComments_def mset_sortJS)
  have ids: "c_id ` set ?new = c_id ` {c \<in> set cs. c_id c \<notin> playedCommentIds st \<and> hasText (c_text c)}"
    by (simp add: newComments_def set_sortJS)
  have partial: "take (length (activeDanmaku st)) (activeDanmaku st') = activeDanmaku st
          \<and> map content (drop (length (activeDanmaku st)) (activeDanmaku st')) = map shown ?new
          \<and> playedCommentIds st' = playedCommentIds st
               \<union> c_id ` {c \<in> set cs. c_id c \<notin> playedCommentIds st \<and> hasText (c_text c)}
          \<and> timers st' = []"
    if dr: "drain ds ?s1 = Some st'" for st'
  proof (cases "?new = []")
    case True
    with cl(2) have t0: "timers ?s1 = []" by simp
    then have "drain ds ?s1 = Some ?s1" by (simp add: drain_idle)
    with dr have e: "st' = ?s1" by simp
    from True ids have i0: "c_id ` {c \<in> set cs. c_id c \<notin> playedCommentIds st \<and> hasText (c_text c)} = {}"
      by simp
    show ?thesis unfolding e i0 using True t0 sc(1,2) by simp
  next
    case False
    with cl(2) have T: "timers ?s1 = [(nextHandle st, 1000, StartBatch cl ?new)]" by simp
    have b: "StartBatch cl ?new = StartBatch cl ?new \<or> StartBatch cl ?new = NextBatch cl ?new" by simp
    note c = chain_partial_drop [OF T b newComments_hasText dr]
    show ?thesis using c unfolding sc(1,2) ids by simp
  qed
  have total: "\<exists>st'. drain ds ?s1 = Some st'"
    if h: "length (activeDanmaku st) < 8 \<and> (\<forall>d\<in>set ds. 0 \<le> rndMax d) \<and> length cs \<le> length ds"
  proof (cases "?new = []")
    case True
    with cl(2) have "timers ?s1 = []" by simp
    then have "drain ds ?s1 = Some ?s1" by (simp add: drain_idle)
    then show ?thesis by blast
  next
    case False
    with cl(2) have T: "timers ?s1 = [(nextHandle st, 1000, StartBatch cl ?new)]" by simp
    from h cl(1) have a: "length (s_activeDanmaku cl) < 8" by simp
    from h have b: "\<forall>d\<in>set ds. 0 \<le> rndMax d" by simp
    from h length_newComments [where rnd = rnd and st = st and cs = cs] have c: "length ?new \<le> length ds" by simp
    from chain_total [OF T _ newComments_hasText a b c False] show ?thesis by simp
  qed
  show ?thesis
  proof (intro conjI allI impI)
    show "mset ?new = mset (filter (\<lambda>c. c_id c \<notin> playedCommentIds st \<and> hasText (c_text c)) cs)"
      by (rule m)
  next
    fix st' assume "drain ds ?s1 = Some st'"
    from partial [OF this]
    show "take (length (activeDanmaku st)) (activeDanmaku st') = activeDanmaku st"
      and "map content (drop (length (activeDanmaku st)) (activeDanmaku st')) = map shown ?new"
      and "playedCommentIds st' = playedCommentIds st
               \<union> c_id ` {c \<in> set cs. c_id c \<notin> playedCommentIds st \<and> hasText (c_text c)}"
      and "timers st' = []"
      by simp_all
  next
    assume "length (activeDanmaku st) < 8 \<and> (\<forall>d\<in>set ds. 0 \<le> rndMax d) \<and> length cs \<le> length ds"
    then show "\<exists>st'. drain ds ?s1 = Some st'" by (rule total)
  qed
qed

section \<open>Exhaustion and restart\<close>

lemma render_active: "s_activeDanmaku (render st) = activeDanmaku st"
  by (simp add: render_def)

lemma allComments_cong: "comments a = comments b \<Longrightarrow> allComments rnd a = allComments rnd b"
  by (simp add: allComments_def)

lemma length_allComments: "length (allComments rnd st) \<le> length (comments st)"
  by (simp add: allComments_def length_sortJS)

lemma removeDanmaku_arm:
  assumes "s_comments cl = comments st" "s_playedCommentIds cl = playedCommentIds st"
    "filter (\<lambda>item. d_id item \<noteq> i) (activeDanmaku st) = []" "comments st \<noteq> []"
    "length (comments st) \<le> card (playedCommentIds st)" "\<not> isRestarting st" "timers st = []"
  shows "isRestarting (removeDanmaku cl i st)"
    and "activeDanmaku (removeDanmaku cl i st) = []"
    and "timers (removeDanmaku cl i st) = [(nextHandle st, 3000, ClearPlayed)]"
    and "restartTimer (removeDanmaku cl i st) = Some (nextHandle st)"
    and "comments (removeDanmaku cl i st) = comments st"
    and "playedCommentIds (removeDanmaku cl i st) = playedCommentIds st"
    and "nextHandle (removeDanmaku cl i st) = Suc (nextHandle st)"
  using assms
  by (simp_all add: removeDanmaku_def Let_def setTimeout_def clearTimeout_def split: option.splits)

lemma fireRestart_fields:
  assumes T: "timers s1 = [(h, t, ClearPlayed)]" and r: "isRestarting s1"
    and c: "comments s1 \<noteq> []" and p: "card (playedCommentIds s1) \<noteq> 0"
  shows "playedCommentIds (fireRestart rnd h d s1) = {}"
    and "\<not> isRestarting (fireRestart rnd h d s1)"
    and "activeDanmaku (fireRestart rnd h d s1) = activeDanmaku s1"
    and "comments (fireRestart rnd h d s1) = comments s1"
    and "timers (fireRestart rnd h d s1) =
          (if allComments rnd s1 = [] then []
           else [(nextHandle s1, 1000,
                  StartBatch (render (s1\<lparr>timers := [], playedCommentIds := {}, isProcessing := False\<rparr>))
                    (allComments rnd s1))])"
proof -
  let ?sf = "s1\<lparr>timers := [], playedCommentIds := {}, isProcessing := False\<rparr>"
  have f: "fire h d s1 = ?sf"
    using fire_single [OF T, of d] by (simp add: runCallback_def)
  have a: "allComments rnd ?sf = allComments rnd s1" by (rule allComments_cong) simp
  have fr: "fireRestart rnd h d s1 = restartEffect rnd ?sf"
    using p by (simp add: fireRestart_def f afterRender_def)
  show "playedCommentIds (fireRestart rnd h d s1) = {}"
    using r c by (simp add: fr restartEffect_def a Let_def setTimeout_def)
  show "\<not> isRestarting (fireRestart rnd h d s1)"
    using r c by (simp add: fr restartEffect_def a Let_def setTimeout_def)
  show "activeDanmaku (fireRestart rnd h d s1) = activeDanmaku s1"
    using r c by (simp add: fr restartEffect_def a Let_def setTimeout_def)
  show "comments (fireRestart rnd h d s1) = comments s1"
    using r c by (simp add: fr restartEffect_def a Let_def setTimeout_def)
  show "timers (fireRestart rnd h d s1) =
          (if allComments rnd s1 = [] then []
           else [(nextHandle s1, 1000, StartBatch (render ?sf) (allComments rnd s1))])"
    using r c by (simp add: fr restartEffect_def a Let_def setTimeout_def)
qed

text \<open>
  \<^verbatim>\<open>removeDanmaku\<close> is called from a render whose \<^verbatim>\<open>comments\<close> and
  \<^verbatim>\<open>playedCommentIds\<close> are the current ones, its removal leaves \<^verbatim>\<open>activeDanmaku\<close>
  empty, the comment list is not empty, \<^verbatim>\<open>playedCommentIds\<close> has at least as many
  elements as there are comments, and no restart is scheduled. Then a timer
  of exactly 3000 ms is armed and \<^verbatim>\<open>isRestartingRef\<close> is set; when it fires,
  \<^verbatim>\<open>playedCommentIds\<close> is empty, the restart effect clears \<^verbatim>\<open>isRestartingRef\<close>, and
  running the release step to its end puts every comment with text on the screen once
  more, in sorted order, and marks exactly their ids as played.
\<close>

lemma restart_when_closure_current:
  assumes cur: "s_comments cl = comments st" "s_playedCommentIds cl = playedCommentIds st"
    and emp: "filter (\<lambda>item. d_id item \<noteq> i) (activeDanmaku st) = []"
    and ne: "comments st \<noteq> []"
    and played: "length (comments st) \<le> card (playedCommentIds st)"
    and nr: "\<not> isRestarting st"
    and nt: "timers st = []"
    and draws: "\<forall>d\<in>set ds. 0 \<le> rndMax d"
    and fuel: "length (comments st) \<le> length ds"
  shows "isRestarting (removeDanmaku cl i st)
     \<and> activeDanmaku (removeDanmaku cl i st) = []
     \<and> timers (removeDanmaku cl i st) = [(nextHandle st, 3000, ClearPlayed)]
     \<and> restartTimer (removeDanmaku cl i st) = Some (nextHandle st)
     \<and> playedCommentIds (fireRestart rnd (nextHandle st) d (removeDanmaku cl i st)) = {}
     \<and> \<not> isRestarting (fireRestart rnd (nextHandle st) d (removeDanmaku cl i st))
     \<and> (\<exists>st'. drain ds (fireRestart rnd (nextHandle st) d (removeDanmaku cl i st)) = Some st'
          \<and> map content (activeDanmaku st') = map shown (allComments rnd st)
          \<and> playedCommentIds st' = c_id ` {c \<in> set (comments st). hasText (c_text c)}
          \<and> timers st' = [])
     \<and> mset (allComments rnd st) = mset (filter (\<lambda>c. hasText (c_text c)) (comments st))"
proof -
  let ?s1 = "removeDanmaku cl i st"
  let ?s2 = "fireRestart rnd (nextHandle st) d ?s1"
  let ?all = "allComments rnd st"
  note arm = removeDanmaku_arm [OF cur emp ne played nr nt]
  from ne have "0 < length (comments st)" by simp
  with played have "0 < card (playedCommentIds st)" by linarith
  then have p: "card (playedCommentIds ?s1) \<noteq> 0" by (simp add: arm)
  from ne have c: "comments ?s1 \<noteq> []" by (simp add: arm)
  note fr = fireRestart_fields [OF arm(3) arm(1) c p, of rnd d]
  have a: "allComments rnd ?s1 = ?all" by (rule allComments_cong) (simp add: arm)
  define cl1 where "cl1 = render (?s1\<lparr>timers := [], playedCommentIds := {}, isProcessing := False\<rparr>)"
  have clA: "length (s_activeDanmaku cl1) < 8" by (simp add: cl1_def render_active arm)
  have T2: "timers ?s2 = (if ?all = [] then [] else [(Suc (nextHandle st), 1000, StartBatch cl1 ?all)])"
    using fr(5) by (simp add: a arm cl1_def)
  have ids: "c_id ` set ?all = c_id ` {c \<in> set (comments st). hasText (c_text c)}"
    by (simp add: allComments_def set_sortJS)
  have m: "mset ?all = mset (filter (\<lambda>c. hasText (c_text c)) (comments st))"
    by (simp add: allComments_def mset_sortJS)
  have dr: "\<exists>st'. drain ds ?s2 = Some st'
          \<and> map content (activeDanmaku st') = map shown ?all
          \<and> playedCommentIds st' = c_id ` {c \<in> set (comments st). hasText (c_text c)}
          \<and> timers st' = []"
  proof (cases "?all = []")
    case True
    with T2 have t0: "timers ?s2 = []" by simp
    then have "drain ds ?s2 = Some ?s2" by (simp add: drain_idle)
    moreover have "map content (activeDanmaku ?s2) = map shown ?all"
      using True by (simp add: fr arm)
    moreover have "playedCommentIds ?s2 = c_id ` {c \<in> set (comments st). hasText (c_text c)}"
      using True ids by (simp add: fr)
    ultimately show ?thesis using t0 by simp
  next
    case False
    with T2 have T: "timers ?s2 = [(Suc (nextHandle st), 1000, StartBatch cl1 ?all)]" by simp
    have b: "StartBatch cl1 ?all = StartBatch cl1 ?all \<or> StartBatch cl1 ?all = NextBatch cl1 ?all" by simp
    from fuel length_allComments [of rnd st] have len: "length ?all \<le> length ds" by simp
    from chain_total [OF T b allComments_hasText clA draws len False]
    obtain st' where st': "drain ds ?s2 = Some st'" by (elim exE)
    note c = chain_partial_drop [OF T b allComments_hasText st']
    have "map content (activeDanmaku st') = map shown ?all"
      using c(2) by (simp add: fr arm)
    moreover have "playedCommentIds st' = c_id ` {c \<in> set (comments st). hasText (c_text c)}"
      using c(3) ids by (simp add: fr)
    ultimately show ?thesis using st' c(4) by simp
  qed
  show ?thesis
    using arm(1,2,3,4) fr(1,2) dr m by simp
qed

section \<open>Evaluation at concrete inputs\<close>

lemmas eval_defs = setComments_def runCleanup_def autoPlayEffect_def afterRender_def restartEffect_def
      newComments_def allComments_def initial_def hasText_def trim_def isSpace_def utf16_def
      sortJS_def countAndMakeRun_def compareFn_def constRnd_def mkComment_def
      setTimeout_def clearTimeout_def render_def isBatch_def fire_def runCallback_def playNextBatch_def
      toPlayNow_def maxConcurrent_def perTickCap_def randomDelay_def desktopDraw_def
      desktopAt_def mobileAt_def mobileMax_def pending_def screen_def
      addDanmaku_def orNull_def Let_def content_def shown_def windowAddDanmaku_def unmount_def
      removeDanmaku_def fireRestart_def

lemma image_filter_set: "f ` {c \<in> set xs. P c} = set (map f (filter P xs))"
  by auto

lemma lastUnit_eval:
  "lastUnit = \<lparr>comments = [mkComment ''1'' ''hi'' 0],
      activeDanmaku = [\<lparr>d_id = 0, d_text = utf16 ''hi'', d_commentId = Some ''1'', d_likesCount = 0\<rparr>],
      playedCommentIds = {Some ''1''}, autoPlayTimer = Some 1, restartTimer = None,
      isProcessing = False, isRestarting = False, timers = [], nextHandle = 2,
      cleanup = Some (1, None)\<rparr>"
  by (simp add: lastUnit_def eval_defs)

subsection \<open>The release order\<close>

text \<open>
  Claim C9, as the code has it. The release order of a cycle is a permutation of the
  unplayed comments with text (of all the comments with text after a restart), sorted
  with a comparator that is the difference of the creation times plus a jitter of at most
  1000 ms. One comparison of two comments more than 1000 ms apart always puts the earlier
  first. When all the comments to release are pairwise more than 1000 ms apart or created
  at the same time, the release order is chronological; this is shown for fewer than 64
  comments, where the sort is the single insertion pass.
\<close>

theorem jittered_release_order:
  "mset (newComments rnd st)
     = mset (filter (\<lambda>c. c_id c \<notin> playedCommentIds st \<and> hasText (c_text c)) (comments st))
   \<and> mset (allComments rnd st) = mset (filter (\<lambda>c. hasText (c_text c)) (comments st))
   \<and> (0 \<le> rnd a b \<and> rnd a b < 1 \<longrightarrow>
        \<bar>compareFn rnd a b - real_of_int (c_createdAt a - c_createdAt b)\<bar> \<le> 1000)
   \<and> (0 \<le> rnd a b \<and> rnd a b < 1 \<and> c_createdAt a + 1000 < c_createdAt b \<longrightarrow> compareFn rnd a b < 0)
   \<and> (0 \<le> rnd b a \<and> rnd b a < 1 \<and> c_createdAt a + 1000 < c_createdAt b \<longrightarrow> 0 < compareFn rnd b a)
   \<and> (length (comments st) < 64 \<and> (\<forall>x y. 0 \<le> rnd x y \<and> rnd x y < 1)
        \<and> (\<forall>x\<in>set (newComments rnd st). \<forall>y\<in>set (newComments rnd st).
              c_createdAt x < c_createdAt y \<longrightarrow> c_createdAt x + 1000 < c_createdAt y)
        \<longrightarrow> sorted (map c_createdAt (newComments rnd st)))
   \<and> (length (comments st) < 64 \<and> (\<forall>x y. 0 \<le> rnd x y \<and> rnd x y < 1)
        \<and> (\<forall>x\<in>set (allComments rnd st). \<forall>y\<in>set (allComments rnd st).
              c_createdAt x < c_createdAt y \<longrightarrow> c_createdAt x + 1000 < c_createdAt y)
        \<longrightarrow> sorted (map c_createdAt (allComments rnd st)))"
proof (intro conjI impI)
  show "mset (newComments rnd st)
     = mset (filter (\<lambda>c. c_id c \<notin> playedCommentIds st \<and> hasText (c_text c)) (comments st))"
    by (simp add: newComments_def mset_sortJS)
next
  show "mset (allComments rnd st) = mset (filter (\<lambda>c. hasText (c_text c)) (comments st))"
    by (simp add: allComments_def mset_sortJS)
next
  assume "0 \<le> rnd a b \<and> rnd a b < 1"
  then have "- 1000 \<le> (rnd a b - 0.5) * 2000" "(rnd a b - 0.5) * 2000 < 1000" by simp_all
  then show "\<bar>compareFn rnd a b - real_of_int (c_createdAt a - c_createdAt b)\<bar> \<le> 1000"
    by (simp add: compareFn_def Let_def)
next
  assume "0 \<le> rnd a b \<and> rnd a b < 1 \<and> c_createdAt a + 1000 < c_createdAt b"
  then show "compareFn rnd a b < 0" using compareFn_far [of rnd a b] by simp
next
  assume "0 \<le> rnd b a \<and> rnd b a < 1 \<and> c_createdAt a + 1000 < c_createdAt b"
  then show "0 < compareFn rnd b a" using compareFn_far' [of rnd b a] by simp
next
  let ?xs = "filter (\<lambda>c. c_id c \<notin> playedCommentIds st \<and> hasText (c_text c)) (comments st)"
  assume h: "length (comments st) < 64 \<and> (\<forall>x y. 0 \<le> rnd x y \<and> rnd x y < 1)
        \<and> (\<forall>x\<in>set (newComments rnd st). \<forall>y\<in>set (newComments rnd st).
              c_createdAt x < c_createdAt y \<longrightarrow> c_createdAt x + 1000 < c_createdAt y)"
  have s: "set (newComments rnd st) = set ?xs" by (simp add: newComments_def set_sortJS)
  from h have r: "\<forall>a b. 0 \<le> rnd a b \<and> rnd a b < 1" by simp
  from h have ap: "\<forall>a\<in>set ?xs. \<forall>b\<in>set ?xs. c_createdAt a < c_createdAt b \<longrightarrow> c_createdAt a + 1000 < c_createdAt b"
    unfolding s by simp
  from sortJS_chronological [OF r ap] show "sorted (map c_createdAt (newComments rnd st))"
    by (simp add: newComments_def)
next
  let ?xs = "filter (\<lambda>c. hasText (c_text c)) (comments st)"
  assume h: "length (comments st) < 64 \<and> (\<forall>x y. 0 \<le> rnd x y \<and> rnd x y < 1)
        \<and> (\<forall>x\<in>set (allComments rnd st). \<forall>y\<in>set (allComments rnd st).
              c_createdAt x < c_createdAt y \<longrightarrow> c_createdAt x + 1000 < c_createdAt y)"
  have s: "set (allComments rnd st) = set ?xs" by (simp add: allComments_def set_sortJS)
  from h have r: "\<forall>a b. 0 \<le> rnd a b \<and> rnd a b < 1" by simp
  from h have ap: "\<forall>a\<in>set ?xs. \<forall>b\<in>set ?xs. c_createdAt a < c_createdAt b \<longrightarrow> c_createdAt a + 1000 < c_createdAt b"
    unfolding s by simp
  from sortJS_chronological [OF r ap] show "sorted (map c_createdAt (allComments rnd st))"
    by (simp add: allComments_def)
qed

lemma newComments_spaced:
  "newComments (constRnd 0.975) (initial\<lparr>comments := spaced\<rparr>)
     = [mkComment ''a'' ''first'' 0, mkComment ''b'' ''second'' 2000, mkComment ''c'' ''third'' 4000]"
  by (simp add: eval_defs spaced_def)

lemma allComments_spaced:
  "allComments (constRnd 0.975) (initial\<lparr>comments := spaced\<rparr>)
     = [mkComment ''a'' ''first'' 0, mkComment ''b'' ''second'' 2000, mkComment ''c'' ''third'' 4000]"
  by (simp add: eval_defs spaced_def)

theorem jittered_release_order_witness:
  "0 \<le> constRnd 0.975 (mkComment ''a'' ''first'' 0) (mkComment ''c'' ''third'' 4000)
   \<and> constRnd 0.975 (mkComment ''a'' ''first'' 0) (mkComment ''c'' ''third'' 4000) < 1
   \<and> c_createdAt (mkComment ''a'' ''first'' 0) + 1000 < c_createdAt (mkComment ''c'' ''third'' 4000)
   \<and> length (comments (initial\<lparr>comments := spaced\<rparr>)) < 64
   \<and> sorted (map c_createdAt (newComments (constRnd 0.975) (initial\<lparr>comments := spaced\<rparr>)))
   \<and> sorted (map c_createdAt (allComments (constRnd 0.975) (initial\<lparr>comments := spaced\<rparr>)))
   \<and> compareFn (constRnd 0.975) (mkComment ''a'' ''first'' 0) (mkComment ''c'' ''third'' 4000) < 0"
proof -
  have r: "\<forall>x y. 0 \<le> constRnd 0.975 x y \<and> constRnd 0.975 x y < 1" by (simp add: constRnd_def)
  have l: "length (comments (initial\<lparr>comments := spaced\<rparr>)) < 64" by (simp add: spaced_def)
  have ap: "\<forall>x\<in>set (newComments (constRnd 0.975) (initial\<lparr>comments := spaced\<rparr>)).
            \<forall>y\<in>set (newComments (constRnd 0.975) (initial\<lparr>comments := spaced\<rparr>)).
              c_createdAt x < c_createdAt y \<longrightarrow> c_createdAt x + 1000 < c_createdAt y"
    unfolding newComments_spaced by (simp add: mkComment_def)
  have aq: "\<forall>x\<in>set (allComments (constRnd 0.975) (initial\<lparr>comments := spaced\<rparr>)).
            \<forall>y\<in>set (allComments (constRnd 0.975) (initial\<lparr>comments := spaced\<rparr>)).
              c_createdAt x < c_createdAt y \<longrightarrow> c_createdAt x + 1000 < c_createdAt y"
    unfolding allComments_spaced by (simp add: mkComment_def)
  have f: "c_createdAt (mkComment ''a'' ''first'' 0) + 1000 < c_createdAt (mkComment ''c'' ''third'' 4000)"
    by (simp add: mkComment_def)
  note t = jittered_release_order [of "constRnd 0.975" "initial\<lparr>comments := spaced\<rparr>"
      "mkComment ''a'' ''first'' 0" "mkComment ''c'' ''third'' 4000"]
  from r l ap t
  have s1: "sorted (map c_createdAt (newComments (constRnd 0.975) (initial\<lparr>comments := spaced\<rparr>)))"
    by blast
  from r l aq t
  have s2: "sorted (map c_createdAt (allComments (constRnd 0.975) (initial\<lparr>comments := spaced\<rparr>)))"
    by blast
  from r f t
  have s3: "compareFn (constRnd 0.975) (mkComment ''a'' ''first'' 0) (mkComment ''c'' ''third'' 4000) < 0"
    by blast
  from r l f s1 s2 s3 show ?thesis by simp
qed

text \<open>
  The claim as stated fails: three comments created at 1800, 900 and 0 ms are listed most
  recent first, and every comparison draws a jitter of +950 ms. The sort compares the
  second with the first and the third with the second, finds \<open>+50\<close> both times, takes
  the array for an ascending run and leaves it as it is: the comment created at 1800 ms
  is released first and the one created at 0 ms last.
\<close>

theorem jittered_release_order_counterexample:
  "constRnd 0.975 (mkComment ''b'' ''second'' 900) (mkComment ''c'' ''third'' 1800) < 1
   \<and> 0 \<le> constRnd 0.975 (mkComment ''b'' ''second'' 900) (mkComment ''c'' ''third'' 1800)
   \<and> c_createdAt (mkComment ''a'' ''first'' 0) + 1000 < c_createdAt (mkComment ''c'' ''third'' 1800)
   \<and> newComments (constRnd 0.975) (initial\<lparr>comments := reversed\<rparr>)
       = [mkComment ''c'' ''third'' 1800, mkComment ''b'' ''second'' 900, mkComment ''a'' ''first'' 0]
   \<and> map_option screen (drain [desktopDraw] (setComments (constRnd 0.975) reversed initial))
       = Some [(utf16 ''third'', Some ''c'', 0), (utf16 ''second'', Some ''b'', 0),
               (utf16 ''first'', Some ''a'', 0)]"
  by (simp add: eval_defs reversed_def)

subsection \<open>The pool size\<close>

text \<open>
  Claim C2 at a failing input. Ten comments are loaded on a narrow viewport with an empty
  pool, and every batch draws the target 8. Four batches of two put 8 units on the screen.
  With 8 units active and a target of 8 the fifth batch should release
  \<open>min (max 0 (8 - 8)) (min 2 2) = 0\<close> units, which is also what \<^verbatim>\<open>toPlayNow\<close> gives
  when it reads the current pool; but the \<^verbatim>\<open>playNextBatch\<close> that the timer calls
  reads \<^verbatim>\<open>activeDanmaku.length\<close> of the render in which the comments arrived, which is
  0, so it releases two more and the pool holds 10 units against a target of 8.
\<close>

theorem pool_exceeds_target:
  "maxConcurrent (mobileAt k) = 8
   \<and> length (activeDanmaku (runBatches fourDraws narrowLoad)) = 8
   \<and> pending (runBatches fourDraws narrowLoad) = [(5, 2500, True)]
   \<and> toPlayNow (render (runBatches fourDraws narrowLoad)) (mobileAt 40) (drop 8 tenComments) = 0
   \<and> length (activeDanmaku (fire 5 (mobileAt 40) (runBatches fourDraws narrowLoad))) = 10"
  by (simp add: eval_defs narrowLoad_def fourDraws_def tenComments_def)

subsection \<open>The release cycle\<close>

lemma starved_step:
  assumes T: "timers st = [(h, t, cb)]"
    and cb: "cb = StartBatch cl cs \<or> cb = NextBatch cl cs"
    and ne: "cs \<noteq> []"
    and full: "12 \<le> length (s_activeDanmaku cl)"
    and d: "isMobile d" "rndMax d < 1"
  shows "activeDanmaku (fire h d st) = activeDanmaku st"
    and "playedCommentIds (fire h d st) = playedCommentIds st"
    and "timers (fire h d st) = [(nextHandle st, randomDelay d, NextBatch cl cs)]"
proof -
  from d(2) have "\<lfloor>rndMax d * 5\<rfloor> < 5" by (simp add: floor_less_iff)
  with d(1) have "maxConcurrent d \<le> 12" by (simp add: maxConcurrent_def)
  with full have n: "toPlayNow cl d cs = 0" by (simp add: toPlayNow_def Let_def)
  from cb have f: "fire h d st = playNextBatch cl d cs (st\<lparr>timers := []\<rparr>) \<or>
      fire h d st = (playNextBatch cl d cs (st\<lparr>timers := []\<rparr>))\<lparr>isProcessing := False\<rparr>"
    using fire_single [OF T, of d] by (auto simp: runCallback_def)
  from f n show "activeDanmaku (fire h d st) = activeDanmaku st"
    by (auto simp: playNextBatch_other)
  from f n show "playedCommentIds (fire h d st) = playedCommentIds st"
    by (auto simp: playNextBatch_other)
  from f n ne show "timers (fire h d st) = [(nextHandle st, randomDelay d, NextBatch cl cs)]"
    by (auto simp: playNextBatch_other)
qed

lemma starved_chain:
  "timers st = [(h, t, cb)] \<Longrightarrow> cb = StartBatch cl cs \<or> cb = NextBatch cl cs \<Longrightarrow> cs \<noteq> [] \<Longrightarrow>
   12 \<le> length (s_activeDanmaku cl) \<Longrightarrow> \<forall>d\<in>set ds. isMobile d \<and> rndMax d < 1 \<Longrightarrow>
   activeDanmaku (runBatches ds st) = activeDanmaku st
   \<and> playedCommentIds (runBatches ds st) = playedCommentIds st
   \<and> drain ds st = None"
proof (induction ds arbitrary: st h t cb)
  case Nil
  from Nil.prems(2) have "isBatch (h, t, cb)" by (auto simp: isBatch_def)
  with Nil.prems(1) show ?case by simp
next
  case (Cons d ds)
  from Cons.prems(2) have b: "isBatch (h, t, cb)" by (auto simp: isBatch_def)
  from Cons.prems(5) have d: "isMobile d" "rndMax d < 1" and ds: "\<forall>d\<in>set ds. isMobile d \<and> rndMax d < 1"
    by simp_all
  note step = starved_step [OF Cons.prems(1,2,3,4) d]
  have nb: "NextBatch cl cs = StartBatch cl cs \<or> NextBatch cl cs = NextBatch cl cs" by simp
  from Cons.IH [OF step(3) nb Cons.prems(3,4) ds] step(1,2) b Cons.prems(1)
  show ?case by simp
qed

lemma starved_eval:
  "activeDanmaku starved = [] \<and> playedCommentIds starved = {} \<and> comments starved = fourComments
   \<and> (\<exists>cl cs. timers starved = [(1, 1000, StartBatch cl cs)] \<and> cs \<noteq> []
         \<and> length (s_activeDanmaku cl) = 12)"
  by (simp add: starved_def crowded_def eval_defs fourComments_def)

text \<open>
  Claim C1 at two failing inputs. In \<open>starved\<close> four comments with text have been supplied
  on a narrow viewport while twelve injected units were on the screen, and those units
  have completed: the pool is empty, no comment has been released and the batch timer is
  pending. Whatever the number of release steps, and with the highest target drawn each
  time, no comment is released and the run does not end: the step counts the twelve units
  of the render in which the comments arrived and reschedules itself. In \<open>reloaded\<close> the
  same four comments are supplied again after the first batch: the timer of the second
  batch and the timer of the new run are both pending, both release comment 4, and it is
  on the screen twice.
\<close>

theorem release_cycle_omits_and_repeats:
  "screen starved = [] \<and> pending starved = [(1, 1000, True)] \<and> comments starved = fourComments
   \<and> screen (runBatches (replicate n mobileMax) starved) = []
   \<and> playedCommentIds (runBatches (replicate n mobileMax) starved) = {}
   \<and> drain (replicate n mobileMax) starved = None
   \<and> pending reloaded = [(2, 1500, True), (3, 1000, True)]
   \<and> map_option screen (drain [desktopAt 10, desktopAt 20] reloaded)
        = Some [(utf16 ''a'', Some ''1'', 0), (utf16 ''b'', Some ''2'', 0), (utf16 ''c'', Some ''3'', 0),
                (utf16 ''d'', Some ''4'', 0), (utf16 ''d'', Some ''4'', 0)]"
proof -
  from starved_eval obtain cl cs where
    e: "activeDanmaku starved = []" "playedCommentIds starved = {}" "comments starved = fourComments"
      "timers starved = [(1, 1000, StartBatch cl cs)]" "cs \<noteq> []" "length (s_activeDanmaku cl) = 12"
    by (elim conjE exE)
  have b: "StartBatch cl cs = StartBatch cl cs \<or> StartBatch cl cs = NextBatch cl cs" by simp
  from e(6) have full: "12 \<le> length (s_activeDanmaku cl)" by simp
  have ds: "\<forall>d\<in>set (replicate n mobileMax). isMobile d \<and> rndMax d < 1"
    by (simp add: mobileMax_def)
  note c = starved_chain [OF e(4) b e(5) full ds]
  have p: "pending starved = [(1, 1000, True)]" by (simp add: pending_def e(4) isBatch_def)
  have r1: "pending reloaded = [(2, 1500, True), (3, 1000, True)]"
    by (simp add: reloaded_def firstBatch_def eval_defs fourComments_def)
  have r2: "map_option screen (drain [desktopAt 10, desktopAt 20] reloaded)
        = Some [(utf16 ''a'', Some ''1'', 0), (utf16 ''b'', Some ''2'', 0), (utf16 ''c'', Some ''3'', 0),
                (utf16 ''d'', Some ''4'', 0), (utf16 ''d'', Some ''4'', 0)]"
    by (simp add: reloaded_def firstBatch_def eval_defs fourComments_def)
  from c e(1,2,3) p r1 r2 show ?thesis by (simp add: screen_def)
qed

subsection \<open>The restart\<close>

text \<open>
  Claim C3 at a failing input. Four comments are played on a wide viewport in two batches.
  The unit of comment 1, mounted with the first batch, is the last to complete (a hover
  paused it). Its completion leaves the pool empty, the comment list holds 4 comments,
  \<^verbatim>\<open>playedCommentIds\<close> holds 4 ids and no restart is scheduled; but the
  \<^verbatim>\<open>removeDanmaku\<close> it calls is that of the render of the first batch, where
  \<^verbatim>\<open>playedCommentIds\<close> holds 3 ids, so no timer is armed, and no timer is left that
  could start another cycle. When the unit of comment 4 is the last to complete, the
  restart timer of 3000 ms is armed.
\<close>

theorem no_restart_after_early_unit:
  "screen earlyUnitLast = [] \<and> length (comments earlyUnitLast) = 4
   \<and> card (playedCommentIds earlyUnitLast) = 4 \<and> isRestarting earlyUnitLast = False
   \<and> card (s_playedCommentIds (render firstBatch)) = 3
   \<and> timers earlyUnitLast = [] \<and> restartTimer earlyUnitLast = None
   \<and> timers lateUnitLast = [(3, 3000, ClearPlayed)]"
  by (simp add: earlyUnitLast_def lateUnitLast_def secondBatch_def firstBatch_def eval_defs
      fourComments_def)

subsection \<open>Comments without text\<close>

lemma trim_Nil_iff: "trim s = [] \<longleftrightarrow> (\<forall>u\<in>set s. isSpace u)"
proof
  assume "trim s = []"
  then have "dropWhile isSpace (rev (dropWhile isSpace s)) = []" by (simp add: trim_def)
  then have a: "\<forall>u\<in>set (dropWhile isSpace s). isSpace u"
    using dropWhile_eq_Nil_conv [of isSpace "rev (dropWhile isSpace s)"] by simp
  have "dropWhile isSpace s = []"
  proof (rule ccontr)
    assume n: "dropWhile isSpace s \<noteq> []"
    then have "\<not> isSpace (hd (dropWhile isSpace s))" by (rule hd_dropWhile)
    moreover from n have "hd (dropWhile isSpace s) \<in> set (dropWhile isSpace s)" by simp
    ultimately show False using a by blast
  qed
  then show "\<forall>u\<in>set s. isSpace u" using dropWhile_eq_Nil_conv [of isSpace s] by blast
next
  assume "\<forall>u\<in>set s. isSpace u"
  then have d: "dropWhile isSpace s = []" using dropWhile_eq_Nil_conv [of isSpace s] by blast
  show "trim s = []" unfolding trim_def d by simp
qed

lemma hasText_iff: "hasText t = (\<exists>s. t = Some s \<and> (\<exists>u\<in>set s. \<not> isSpace u))"
proof (cases t)
  case None
  then show ?thesis by (simp add: hasText_def)
next
  case (Some s)
  have "(s \<noteq> [] \<and> trim s \<noteq> []) = (\<exists>u\<in>set s. \<not> isSpace u)"
    unfolding trim_Nil_iff by auto
  with Some show ?thesis by (simp add: hasText_def)
qed

lemma addDanmaku_comment:
  "hasText (c_text c) \<Longrightarrow>
   activeDanmaku (addDanmaku i (c_text c) (Some c) st)
     = activeDanmaku st @ [\<lparr>d_id = i, d_text = trim (the (c_text c)), d_commentId = orNull (c_id c),
                            d_likesCount = c_likesCount c\<rparr>]"
  by (simp add: addDanmaku_def Let_def)

text \<open>
  Claim C4, as the code has it. A text passes the filters exactly when it is a string
  with a code unit that is not white space. The list of the auto-play effect holds exactly
  the comments with text whose id is not in \<^verbatim>\<open>playedCommentIds\<close>, the list of the
  restart effect exactly the comments with text, and \<^verbatim>\<open>addDanmaku\<close> leaves the state
  as it is for any other text, so a comment without text never enters
  \<^verbatim>\<open>activeDanmaku\<close>. The id is not tested: a comment with text is added as a unit that
  shows the trimmed text, with \<^verbatim>\<open>commentId\<close> null when the id is missing or empty.
  For the comments \<^verbatim>\<open>[{id:1,text:"hi"},{id:2,text:"  "}]\<close> a release cycle yields
  exactly one unit, the one of comment 1, and marks only comment 1 as played; a restart
  list would hold comment 1 only, and when the unit completes no restart is armed, since
  one id is marked and there are two comments.
\<close>

theorem text_less_comment_excluded:
  "hasText t = (\<exists>s. t = Some s \<and> (\<exists>u\<in>set s. \<not> isSpace u))
   \<and> set (newComments rnd st)
       = {c \<in> set (comments st). c_id c \<notin> playedCommentIds st \<and> hasText (c_text c)}
   \<and> set (allComments rnd st) = {c \<in> set (comments st). hasText (c_text c)}
   \<and> (\<not> hasText t \<longrightarrow> addDanmaku i t cd st = st)
   \<and> (hasText (c_text c) \<longrightarrow>
        activeDanmaku (addDanmaku i (c_text c) (Some c) st)
          = activeDanmaku st @ [\<lparr>d_id = i, d_text = trim (the (c_text c)),
                                 d_commentId = orNull (c_id c), d_likesCount = c_likesCount c\<rparr>])
   \<and> orNull None = None \<and> orNull (Some []) = None
   \<and> hasText (Some [0xA0, 0x2003, 0x3000, 0xFEFF, 0x0A]) = False
   \<and> map_option screen (drain [desktopDraw] (setComments (constRnd 0.5) scenario initial))
      = Some [(utf16 ''hi'', Some ''1'', 0)]
   \<and> map_option playedCommentIds (drain [desktopDraw] (setComments (constRnd 0.5) scenario initial))
      = Some {Some ''1''}
   \<and> map shown (allComments rnd (initial\<lparr>comments := scenario\<rparr>)) = [(utf16 ''hi'', Some ''1'', 0)]
   \<and> screen (removeDanmaku (render scenarioPlayed) 0 scenarioPlayed) = []
   \<and> timers (removeDanmaku (render scenarioPlayed) 0 scenarioPlayed) = []"
proof (intro conjI impI)
  show "hasText t = (\<exists>s. t = Some s \<and> (\<exists>u\<in>set s. \<not> isSpace u))" by (rule hasText_iff)
  show "set (newComments rnd st)
       = {c \<in> set (comments st). c_id c \<notin> playedCommentIds st \<and> hasText (c_text c)}"
    by (simp add: newComments_def set_sortJS)
  show "set (allComments rnd st) = {c \<in> set (comments st). hasText (c_text c)}"
    by (simp add: allComments_def set_sortJS)
  show "addDanmaku i t cd st = st" if "\<not> hasText t" using that by (rule addDanmaku_skip)
  show "activeDanmaku (addDanmaku i (c_text c) (Some c) st)
          = activeDanmaku st @ [\<lparr>d_id = i, d_text = trim (the (c_text c)),
                                 d_commentId = orNull (c_id c), d_likesCount = c_likesCount c\<rparr>]"
    if "hasText (c_text c)" using that by (rule addDanmaku_comment)
  show "orNull None = None" by (simp add: orNull_def)
  show "orNull (Some []) = None" by (simp add: orNull_def)
  show "hasText (Some [0xA0, 0x2003, 0x3000, 0xFEFF, 0x0A]) = False"
    by (simp add: hasText_def trim_def isSpace_def)
  show "map_option screen (drain [desktopDraw] (setComments (constRnd 0.5) scenario initial))
      = Some [(utf16 ''hi'', Some ''1'', 0)]"
    by (simp add: eval_defs scenario_def)
  show "map_option playedCommentIds (drain [desktopDraw] (setComments (constRnd 0.5) scenario initial))
      = Some {Some ''1''}"
    by (simp add: eval_defs scenario_def)
  show "map shown (allComments rnd (initial\<lparr>comments := scenario\<rparr>)) = [(utf16 ''hi'', Some ''1'', 0)]"
    by (simp add: allComments_def initial_def scenario_def hasText_def trim_def isSpace_def utf16_def
        sortJS_def countAndMakeRun_def shown_def orNull_def)
  show "screen (removeDanmaku (render scenarioPlayed) 0 scenarioPlayed) = []"
    by (simp add: scenarioPlayed_def eval_defs scenario_def)
  show "timers (removeDanmaku (render scenarioPlayed) 0 scenarioPlayed) = []"
    by (simp add: scenarioPlayed_def eval_defs scenario_def)
qed

theorem text_less_comment_excluded_witness:
  "hasText (c_text (scenario ! 1)) = False
   \<and> addDanmaku 3 (c_text (scenario ! 1)) (Some (scenario ! 1)) initial = initial
   \<and> hasText (c_text noId)
   \<and> map content (activeDanmaku (addDanmaku 3 (c_text noId) (Some noId) initial))
       = [(utf16 ''hi'', None, 0)]"
proof -
  have n: "\<not> hasText (c_text (scenario ! 1))"
    by (simp add: scenario_def hasText_def trim_def isSpace_def utf16_def)
  have y: "hasText (c_text noId)"
    by (simp add: noId_def hasText_def trim_def isSpace_def utf16_def)
  from n text_less_comment_excluded [of "c_text (scenario ! 1)" "constRnd 0.5" initial 3
      "Some (scenario ! 1)" noId]
  have a: "addDanmaku 3 (c_text (scenario ! 1)) (Some (scenario ! 1)) initial = initial" by blast
  from y text_less_comment_excluded [of "c_text (scenario ! 1)" "constRnd 0.5" initial 3
      "Some (scenario ! 1)" noId]
  have "activeDanmaku (addDanmaku 3 (c_text noId) (Some noId) initial)
          = activeDanmaku initial @ [\<lparr>d_id = 3, d_text = trim (the (c_text noId)),
                                 d_commentId = orNull (c_id noId), d_likesCount = c_likesCount noId\<rparr>]"
    by blast
  then have b: "map content (activeDanmaku (addDanmaku 3 (c_text noId) (Some noId) initial))
       = [(utf16 ''hi'', None, 0)]"
    by (simp add: initial_def noId_def content_def orNull_def trim_def isSpace_def utf16_def)
  from n y a b show ?thesis by simp
qed

text \<open>
  The claim as stated fails for a missing id: a comment with text and no id is released,
  as a unit whose \<^verbatim>\<open>commentId\<close> is null.
\<close>

theorem text_less_comment_excluded_counterexample:
  "c_id noId = None \<and> hasText (c_text noId)
   \<and> map_option screen (drain [desktopDraw] (setComments (constRnd 0.5) [noId] initial))
      = Some [(utf16 ''hi'', None, 0)]"
  by (simp add: eval_defs noId_def)

subsection \<open>Unmounting\<close>

text \<open>
  Claim C5 at two inputs. Four comments are loaded on a wide viewport and the first batch
  has been released: unmounting leaves the timer of the next batch (handle 2, 1500 ms)
  pending. One comment has been played and its unit completes, which arms the restart:
  unmounting leaves the restart timer (3000 ms) pending, since the cleanup holds the
  \<^verbatim>\<open>restartTimer\<close> of the render in which the effect ran, which is null.
\<close>

theorem unmount_leaves_timers:
  "map (\<lambda>t. (fst t, fst (snd t), isBatch t))
      (timers (unmount (fire 1 desktopDraw (setComments (constRnd 0.5) fourComments initial))))
     = [(2, 1500, True)]
   \<and> timers (unmount (removeDanmaku (render lastUnit) 0 lastUnit)) = [(2, 3000, ClearPlayed)]"
  by (simp add: lastUnit_eval eval_defs fourComments_def)

end
